theory Spec2Isabelle
  imports Complex_Main "HOL-Library.Char_ord" "HOL-Library.List_Lexorder" "HOL-Library.Multiset"
begin

section \<open>Strings and character classes\<close>

text \<open>
  A JavaScript string is a sequence of code units. The embedding reads a \<^typ>\<open>char\<close> as a
  code unit in the range U+0000 .. U+00FF (Basic Latin and Latin-1 Supplement); on that range
  \<^verbatim>\<open>toLowerCase\<close> maps one code unit to one code unit, and the regular-expression classes of
  the sources are the code ranges below. Offsets into a string are natural numbers. Strings with
  code units beyond U+00FF are outside the embedding; there \<^verbatim>\<open>toLowerCase\<close> can also change
  the length of a string (U+0130 becomes two code units).
\<close>

definition code :: "char \<Rightarrow> nat" where
  "code c = of_char c"

text \<open>The class \<^verbatim>\<open>[A-Z]\<close>.\<close>

definition isUpperAZ :: "char \<Rightarrow> bool" where
  "isUpperAZ c \<longleftrightarrow> 65 \<le> code c \<and> code c \<le> 90"

text \<open>The class \<^verbatim>\<open>[a-z0-9]\<close>.\<close>

definition isLowerDigit :: "char \<Rightarrow> bool" where
  "isLowerDigit c \<longleftrightarrow> (97 \<le> code c \<and> code c \<le> 122) \<or> (48 \<le> code c \<and> code c \<le> 57)"

text \<open>The class \<^verbatim>\<open>[a-zA-Z0-9]\<close>; its complement is \<^verbatim>\<open>[^A-Za-z0-9]\<close>.\<close>

definition isAlnum :: "char \<Rightarrow> bool" where
  "isAlnum c \<longleftrightarrow> (97 \<le> code c \<and> code c \<le> 122) \<or> (65 \<le> code c \<and> code c \<le> 90)
     \<or> (48 \<le> code c \<and> code c \<le> 57)"

text \<open>
  The class \<^verbatim>\<open>[\p{L}\p{N}]\<close> on U+0000 .. U+00FF: the ASCII letters and digits, the letters
  U+00AA, U+00B5, U+00BA, U+00C0 .. U+00D6, U+00D8 .. U+00F6, U+00F8 .. U+00FF and the numbers
  U+00B2, U+00B3, U+00B9, U+00BC .. U+00BE.
\<close>

definition isLetterOrNumber :: "char \<Rightarrow> bool" where
  "isLetterOrNumber c \<longleftrightarrow> isAlnum c
     \<or> code c = 170 \<or> code c = 181 \<or> code c = 186
     \<or> (192 \<le> code c \<and> code c \<le> 214) \<or> (216 \<le> code c \<and> code c \<le> 246)
     \<or> (248 \<le> code c \<and> code c \<le> 255)
     \<or> code c = 178 \<or> code c = 179 \<or> code c = 185 \<or> (188 \<le> code c \<and> code c \<le> 190)"

text \<open>The class \<^verbatim>\<open>\s\<close> on U+0000 .. U+00FF: U+0009 .. U+000D, U+0020 and U+00A0.\<close>

definition isSpace :: "char \<Rightarrow> bool" where
  "isSpace c \<longleftrightarrow> (9 \<le> code c \<and> code c \<le> 13) \<or> code c = 32 \<or> code c = 160"

text \<open>
  \<^verbatim>\<open>toLowerCase\<close> of one code unit: \<^verbatim>\<open>A-Z\<close>, U+00C0 .. U+00D6 and U+00D8 .. U+00DE move up
  by 32, every other code unit stays.
\<close>

definition toLowerChar :: "char \<Rightarrow> char" where
  "toLowerChar c =
     (if (65 \<le> code c \<and> code c \<le> 90) \<or> (192 \<le> code c \<and> code c \<le> 214)
         \<or> (216 \<le> code c \<and> code c \<le> 222)
      then char_of (code c + 32) else c)"

definition toLowerCase :: "string \<Rightarrow> string" where
  "toLowerCase s = map toLowerChar s"

text \<open>
  \<^verbatim>\<open>s.substring(a, b)\<close> for offsets that are natural numbers: both ends are clamped to the
  length and swapped when out of order.
\<close>

definition substring :: "string \<Rightarrow> nat \<Rightarrow> nat \<Rightarrow> string" where
  "substring s a b = take (max a b - min a b) (drop (min a b) s)"

section \<open>Normalizer\<close>

text \<open>
  \<^verbatim>\<open>normalizeToken(str) = str.toLowerCase().replace(/[^\p{L}\p{N}]/gu, '')\<close>
\<close>

definition normalizeToken :: "string \<Rightarrow> string" where
  "normalizeToken str = filter isLetterOrNumber (toLowerCase str)"

section \<open>Token scanner\<close>

text \<open>
  \<^verbatim>\<open>nextTokenIdx\<close> runs the regular expression
  \<^verbatim>\<open>/(?:[A-Z]?[a-z0-9]+(?=[A-Z]))|(?:[a-zA-Z0-9]+[^A-Za-z0-9]*)|(?:[^A-Za-z0-9]*(?=[a-zA-Z0-9]))/g\<close>
  from \<^verbatim>\<open>lastIndex = startPos\<close>. The matcher is written out in the order in which a
  backtracking engine explores it: a greedy quantifier over a character class tries the longest
  run first and then every shorter one, an alternative is tried only when the ones before it
  failed at the same offset, and \<^verbatim>\<open>exec\<close> moves to the next offset when no alternative
  matches. Every function returns the offset at which the match ends, which is
  \<^verbatim>\<open>m.index + m[0].length\<close>.
\<close>

fun firstSome :: "('a \<Rightarrow> 'b option) \<Rightarrow> 'a list \<Rightarrow> 'b option" where
  "firstSome f [] = None"
| "firstSome f (x # xs) = (case f x of Some y \<Rightarrow> Some y | None \<Rightarrow> firstSome f xs)"

text \<open>The length of the longest run of characters of a class from offset \<open>p\<close>.\<close>

definition runLength :: "(char \<Rightarrow> bool) \<Rightarrow> string \<Rightarrow> nat \<Rightarrow> nat" where
  "runLength P s p = length (takeWhile P (drop p s))"

text \<open>The run lengths a greedy quantifier tries, longest first, down to \<open>least\<close>.\<close>

definition greedy :: "nat \<Rightarrow> (char \<Rightarrow> bool) \<Rightarrow> string \<Rightarrow> nat \<Rightarrow> nat list" where
  "greedy least P s p = rev [least..<Suc (runLength P s p)]"

text \<open>A lookahead \<^verbatim>\<open>(?=[...])\<close> at offset \<open>e\<close>: it consumes nothing.\<close>

definition lookahead :: "(char \<Rightarrow> bool) \<Rightarrow> string \<Rightarrow> nat \<Rightarrow> nat option" where
  "lookahead P s e = (if e < length s \<and> P (s ! e) then Some e else None)"

text \<open>\<^verbatim>\<open>[A-Z]?[a-z0-9]+(?=[A-Z])\<close>\<close>

definition reHump :: "string \<Rightarrow> nat \<Rightarrow> nat option" where
  "reHump s p =
     firstSome (\<lambda>q. firstSome (\<lambda>k. lookahead isUpperAZ s (q + k)) (greedy 1 isLowerDigit s q))
       (if p < length s \<and> isUpperAZ (s ! p) then [Suc p, p] else [p])"

text \<open>\<^verbatim>\<open>[a-zA-Z0-9]+[^A-Za-z0-9]*\<close>\<close>

definition reWord :: "string \<Rightarrow> nat \<Rightarrow> nat option" where
  "reWord s p =
     firstSome (\<lambda>k. firstSome (\<lambda>j. Some (p + k + j)) (greedy 0 (\<lambda>c. \<not> isAlnum c) s (p + k)))
       (greedy 1 isAlnum s p)"

text \<open>\<^verbatim>\<open>[^A-Za-z0-9]*(?=[a-zA-Z0-9])\<close>\<close>

definition reSep :: "string \<Rightarrow> nat \<Rightarrow> nat option" where
  "reSep s p = firstSome (\<lambda>j. lookahead isAlnum s (p + j)) (greedy 0 (\<lambda>c. \<not> isAlnum c) s p)"

definition matchAt :: "string \<Rightarrow> nat \<Rightarrow> nat option" where
  "matchAt s p =
     (case reHump s p of Some e \<Rightarrow> Some e
      | None \<Rightarrow> (case reWord s p of Some e \<Rightarrow> Some e | None \<Rightarrow> reSep s p))"

text \<open>
  \<^verbatim>\<open>re.exec(source)\<close> with \<^verbatim>\<open>re.lastIndex = startPos\<close>: no match when
  \<^verbatim>\<open>lastIndex\<close> is beyond the length, else the first offset from \<^verbatim>\<open>lastIndex\<close> at which
  the expression matches.
\<close>

definition exec :: "string \<Rightarrow> nat \<Rightarrow> nat option" where
  "exec source lastIndex = firstSome (matchAt source) [lastIndex..<Suc (length source)]"

definition nextTokenIdx :: "string \<Rightarrow> nat \<Rightarrow> nat" where
  "nextTokenIdx source startPos =
     (case exec source startPos of None \<Rightarrow> length source | Some e \<Rightarrow> e)"

section \<open>Tokenizer\<close>

text \<open>
  The loop of \<^verbatim>\<open>tokenize\<close>, with the offset \<open>idx\<close> and the tokens pushed so far. The token
  is \<^verbatim>\<open>source.substring(idx, nextIdx).replace(/[^a-z0-9]/gi, '')\<close>; without the \<^verbatim>\<open>u\<close>
  flag the case-insensitive class \<^verbatim>\<open>[a-z0-9]\<close> holds the ASCII letters and digits only.
  The scanner moves forward from every offset below the length (\<open>nextTokenIdx_progress\<close>
  below), which is the termination argument.
\<close>

function tokenizeLoop :: "string \<Rightarrow> nat \<Rightarrow> string list \<Rightarrow> string list" where
  "tokenizeLoop source idx tokens =
     (if idx < length source then
        (let nextIdx = nextTokenIdx source idx;
             token = filter isAlnum (substring source idx nextIdx)
         in tokenizeLoop source nextIdx
              (if length token > 0 then tokens @ [normalizeToken token] else tokens))
      else tokens)"
  by pat_completeness auto

definition tokenize :: "string \<Rightarrow> string list" where
  "tokenize source = tokenizeLoop source 0 []"

section \<open>Matching algorithms\<close>

subsection \<open>Letter-token match\<close>

text \<open>
  The \<^verbatim>\<open>while\<close> loop of \<^verbatim>\<open>matchLetterTokens\<close> with its state (\<open>queue\<close>, \<open>cursor\<close>,
  \<open>matches\<close>). The retry \<^verbatim>\<open>return matchLetterTokens(query, source, nextPos)\<close> enters the
  loop again in the initial state of that call.
\<close>

function letterTokensLoop ::
  "string \<Rightarrow> string \<Rightarrow> nat \<Rightarrow> string \<Rightarrow> nat \<Rightarrow> nat list \<Rightarrow> nat list" where
  "letterTokensLoop query source startPos queue cursor matches =
     (case queue of
        [] \<Rightarrow> matches
      | letter # rest \<Rightarrow>
          if cursor \<ge> length source then
            (let nextPos = nextTokenIdx source startPos in
             if nextPos < length source
             then letterTokensLoop query source nextPos (normalizeToken query) nextPos []
             else [])
          else if [letter] = toLowerCase [source ! cursor] then
            letterTokensLoop query source startPos rest (cursor + 1) (matches @ [cursor])
          else letterTokensLoop query source startPos queue (nextTokenIdx source cursor) matches)"
  by pat_completeness auto

definition matchLetterTokens :: "string \<Rightarrow> string \<Rightarrow> nat \<Rightarrow> nat list" where
  "matchLetterTokens query source startPos =
     letterTokensLoop query source startPos (normalizeToken query) startPos []"

subsection \<open>Strict token match\<close>

text \<open>
  The loop of \<^verbatim>\<open>matchTokensStrict\<close>. When the cursor has left the source with query tokens
  still queued, the code returns \<^verbatim>\<open>matchLetterTokens(query, source, nextPos)\<close>.
\<close>

function tokensStrictLoop ::
  "string \<Rightarrow> string \<Rightarrow> nat \<Rightarrow> string list \<Rightarrow> nat \<Rightarrow> nat list \<Rightarrow> nat list" where
  "tokensStrictLoop query source startPos queue cursor matches =
     (case queue of
        [] \<Rightarrow> matches
      | token # rest \<Rightarrow>
          if cursor \<ge> length source then
            (let nextPos = nextTokenIdx source startPos in
             if nextPos < length source then matchLetterTokens query source nextPos else [])
          else
            (let cursorEnd = cursor + length token;
                 str = substring (toLowerCase source) cursor cursorEnd
             in if str = token then
                  tokensStrictLoop query source startPos rest
                    (min (nextTokenIdx source cursorEnd) (nextTokenIdx source cursor))
                    (matches @ [cursor..<cursorEnd])
                else tokensStrictLoop query source startPos queue
                       (nextTokenIdx source cursor) matches))"
  by pat_completeness auto

definition matchTokensStrict :: "string \<Rightarrow> string \<Rightarrow> nat \<Rightarrow> nat list" where
  "matchTokensStrict query source startPos =
     tokensStrictLoop query source startPos (tokenize query) startPos []"

subsection \<open>Lenient token match\<close>

text \<open>
  The labelled loop of \<^verbatim>\<open>matchTokensLenient\<close>: the inner \<^verbatim>\<open>for\<close> stops at the first
  query token that equals the text at the cursor.
\<close>

function tokensLenientLoop :: "string list \<Rightarrow> string \<Rightarrow> nat \<Rightarrow> nat list \<Rightarrow> nat list" where
  "tokensLenientLoop queryTokens source cursor matches =
     (if cursor < length source then
        (case find (\<lambda>token. substring (toLowerCase source) cursor (cursor + length token) = token)
                queryTokens of
           Some token \<Rightarrow>
             (let cursorEnd = cursor + length token in
              tokensLenientLoop queryTokens source
                (min (nextTokenIdx source cursorEnd) (nextTokenIdx source cursor))
                (matches @ [cursor..<cursorEnd]))
         | None \<Rightarrow> tokensLenientLoop queryTokens source (nextTokenIdx source cursor) matches)
      else matches)"
  by pat_completeness auto

definition matchTokensLenient :: "string \<Rightarrow> string \<Rightarrow> nat list" where
  "matchTokensLenient query source = tokensLenientLoop (tokenize query) source 0 []"

subsection \<open>Wildcard match\<close>

text \<open>
  \<^verbatim>\<open>s.indexOf(searchString, position)\<close>: the first offset from
  \<^verbatim>\<open>min(position, length)\<close> at which \<open>searchString\<close> starts; \<open>None\<close> stands for \<^verbatim>\<open>-1\<close>.
\<close>

definition indexOf :: "string \<Rightarrow> string \<Rightarrow> nat \<Rightarrow> nat option" where
  "indexOf s searchString position =
     find (\<lambda>k. k + length searchString \<le> length s
                \<and> take (length searchString) (drop k s) = searchString)
       [min position (length s)..<Suc (length s)]"

text \<open>The \<^verbatim>\<open>for\<close> loop of \<^verbatim>\<open>matchWildcard\<close> over the letters left of the query.\<close>

fun wildcardLoop :: "string \<Rightarrow> string \<Rightarrow> nat \<Rightarrow> nat list \<Rightarrow> nat list" where
  "wildcardLoop [] sourceNorm fromIdx matches = matches"
| "wildcardLoop (ch # query) sourceNorm fromIdx matches =
     (case indexOf sourceNorm (toLowerCase [ch]) fromIdx of
        None \<Rightarrow> []
      | Some idx \<Rightarrow> wildcardLoop query sourceNorm (idx + 1) (matches @ [idx]))"

definition matchWildcard :: "string \<Rightarrow> string \<Rightarrow> nat list" where
  "matchWildcard query source =
     wildcardLoop (filter (\<lambda>c. \<not> isSpace c) (toLowerCase query)) (toLowerCase source) 0 []"

section \<open>Scorer\<close>

text \<open>
  A JavaScript number, with the rounding of floating-point arithmetic left out: a rational, the
  two infinities, or \<^verbatim>\<open>NaN\<close>. Only the operations of the sources are defined:
  \<^verbatim>\<open>+\<close>, \<^verbatim>\<open>*\<close>, \<^verbatim>\<open><\<close>, \<^verbatim>\<open>===\<close>, and the quotient of two non-negative
  integers, where a division by zero gives \<^verbatim>\<open>Infinity\<close> (or \<^verbatim>\<open>NaN\<close> for \<^verbatim>\<open>0 / 0\<close>).
\<close>

datatype number = Num rat | PosInf | NegInf | NaN

fun numAdd :: "number \<Rightarrow> number \<Rightarrow> number" where
  "numAdd (Num a) (Num b) = Num (a + b)"
| "numAdd NaN _ = NaN"
| "numAdd _ NaN = NaN"
| "numAdd PosInf NegInf = NaN"
| "numAdd NegInf PosInf = NaN"
| "numAdd PosInf _ = PosInf"
| "numAdd _ PosInf = PosInf"
| "numAdd NegInf _ = NegInf"
| "numAdd _ NegInf = NegInf"

text \<open>The sign of a product with an infinity: \<open>pos\<close> says whether the infinity is positive.\<close>

definition infTimes :: "bool \<Rightarrow> rat \<Rightarrow> number" where
  "infTimes pos a =
     (if a = 0 then NaN else if (0 < a) = pos then PosInf else NegInf)"

fun numMul :: "number \<Rightarrow> number \<Rightarrow> number" where
  "numMul (Num a) (Num b) = Num (a * b)"
| "numMul NaN _ = NaN"
| "numMul _ NaN = NaN"
| "numMul (Num a) PosInf = infTimes True a"
| "numMul (Num a) NegInf = infTimes False a"
| "numMul PosInf (Num b) = infTimes True b"
| "numMul NegInf (Num b) = infTimes False b"
| "numMul PosInf PosInf = PosInf"
| "numMul NegInf NegInf = PosInf"
| "numMul PosInf NegInf = NegInf"
| "numMul NegInf PosInf = NegInf"

fun numLess :: "number \<Rightarrow> number \<Rightarrow> bool" where
  "numLess (Num a) (Num b) = (a < b)"
| "numLess NaN _ = False"
| "numLess _ NaN = False"
| "numLess NegInf NegInf = False"
| "numLess NegInf _ = True"
| "numLess _ NegInf = False"
| "numLess PosInf _ = False"
| "numLess _ PosInf = True"

definition numEq :: "number \<Rightarrow> number \<Rightarrow> bool" where
  "numEq a b \<longleftrightarrow> a \<noteq> NaN \<and> a = b"

definition numDivNat :: "nat \<Rightarrow> nat \<Rightarrow> number" where
  "numDivNat n d =
     (if d = 0 then (if n = 0 then NaN else PosInf) else Num (of_nat n / of_nat d))"

text \<open>
  \<^verbatim>\<open>matches.reduce((sum, m) => sum + n / (l + m), 0)\<close>, for match indices that are natural
  numbers.
\<close>

definition fuzzyMatchScore :: "string \<Rightarrow> nat list \<Rightarrow> number" where
  "fuzzyMatchScore source matches =
     (let l = length source; n = length matches
      in foldl (\<lambda>sum m. numAdd sum (numDivNat n (l + m))) (Num 0) matches)"

section \<open>Highlighter\<close>

definition formatHighlight :: "string \<Rightarrow> nat list \<Rightarrow> string \<Rightarrow> string" where
  "formatHighlight source matches tag =
     concat (map (\<lambda>(char, i). if i \<in> set matches
                               then ''<'' @ tag @ ''>'' @ [char] @ ''</'' @ tag @ ''>''
                               else [char])
               (zip source [0..<length source]))"

section \<open>Match arbitrator\<close>

text \<open>
  The bias weights of the options are finite numbers, modelled as rationals; an absent field is
  \<open>None\<close>.
\<close>

record FuzzyMatchOptions =
  highlightTag :: "string option"
  biasTokensStrict :: "rat option"
  biasLetterTokens :: "rat option"
  biasTokensLenient :: "rat option"
  biasWildcard :: "rat option"

record FuzzyMatchResult =
  score :: number
  matches :: "nat list"
  highlight :: string

record MatchAlgorithm =
  matcher :: "string \<Rightarrow> string \<Rightarrow> nat list"
  bias :: "FuzzyMatchOptions \<Rightarrow> rat"

definition algorithms :: "MatchAlgorithm list" where
  "algorithms =
     [\<lparr>matcher = (\<lambda>q s. matchTokensStrict q s 0),
       bias = (\<lambda>opt. case biasTokensStrict opt of None \<Rightarrow> 16 | Some b \<Rightarrow> b)\<rparr>,
      \<lparr>matcher = (\<lambda>q s. matchLetterTokens q s 0),
       bias = (\<lambda>opt. case biasLetterTokens opt of None \<Rightarrow> 8 | Some b \<Rightarrow> b)\<rparr>,
      \<lparr>matcher = (\<lambda>q s. matchTokensLenient q s),
       bias = (\<lambda>opt. case biasTokensLenient opt of None \<Rightarrow> 4 | Some b \<Rightarrow> b)\<rparr>,
      \<lparr>matcher = (\<lambda>q s. matchWildcard q s),
       bias = (\<lambda>opt. case biasWildcard opt of None \<Rightarrow> 1 | Some b \<Rightarrow> b)\<rparr>]"

text \<open>
  \<^verbatim>\<open>Array.prototype.sort(comparefn)\<close>. The language fixes the order of the result only as
  far as \<open>comparefn\<close> is a consistent comparison; the embedding sorts by insertion, from the
  left, putting an element in front of the first one it compares below.
\<close>

fun insertBy :: "('a \<Rightarrow> 'a \<Rightarrow> int) \<Rightarrow> 'a \<Rightarrow> 'a list \<Rightarrow> 'a list" where
  "insertBy comparefn x [] = [x]"
| "insertBy comparefn x (y # ys) =
     (if comparefn x y < 0 then x # y # ys else y # insertBy comparefn x ys)"

definition sortBy :: "('a \<Rightarrow> 'a \<Rightarrow> int) \<Rightarrow> 'a list \<Rightarrow> 'a list" where
  "sortBy comparefn xs = foldl (\<lambda>sorted x. insertBy comparefn x sorted) [] xs"

definition sortedAlgs :: "FuzzyMatchOptions \<Rightarrow> MatchAlgorithm list" where
  "sortedAlgs options =
     sortBy (\<lambda>a b. let biasA = bias a options; biasB = bias b options
                     in if biasA < biasB then 1 else - 1) algorithms"

text \<open>The \<^verbatim>\<open>for\<close> loop of \<^verbatim>\<open>fuzzyMatch\<close> over the sorted algorithms left to try.\<close>

fun tryAlgorithms ::
  "MatchAlgorithm list \<Rightarrow> string \<Rightarrow> string \<Rightarrow> FuzzyMatchOptions \<Rightarrow> FuzzyMatchResult" where
  "tryAlgorithms [] query source options = \<lparr>score = Num 0, matches = [], highlight = source\<rparr>"
| "tryAlgorithms (algo # algs) query source options =
     (let bias = bias algo options in
      if bias = 0 then tryAlgorithms algs query source options
      else
        (let matches = matcher algo query source in
         if length matches > 0 then
           (let score = fuzzyMatchScore source matches;
                highlight = formatHighlight source matches
                  (case highlightTag options of None \<Rightarrow> ''b'' | Some tag \<Rightarrow> tag)
            in \<lparr>score = numMul score (Num bias), matches = matches, highlight = highlight\<rparr>)
         else tryAlgorithms algs query source options))"

definition fuzzyMatch :: "string \<Rightarrow> string \<Rightarrow> FuzzyMatchOptions \<Rightarrow> FuzzyMatchResult" where
  "fuzzyMatch query source options = tryAlgorithms (sortedAlgs options) query source options"

text \<open>The options \<^verbatim>\<open>{}\<close>: every field absent.\<close>

definition noOptions :: FuzzyMatchOptions where
  "noOptions = \<lparr>highlightTag = None, biasTokensStrict = None, biasLetterTokens = None,
     biasTokensLenient = None, biasWildcard = None\<rparr>"

section \<open>Search aggregator\<close>

record FuzzySearchResult = FuzzyMatchResult +
  source :: string
  index :: nat

text \<open>The \<^verbatim>\<open>for\<close> loop of \<^verbatim>\<open>fuzzySearch\<close> over \<^verbatim>\<open>sources.entries()\<close>.\<close>

fun searchLoop ::
  "string \<Rightarrow> (nat \<times> string) list \<Rightarrow> FuzzyMatchOptions \<Rightarrow> FuzzySearchResult list
     \<Rightarrow> FuzzySearchResult list" where
  "searchLoop query [] options results = results"
| "searchLoop query (entry # entries) options results =
     (let index = fst entry; source = snd entry;
          match = fuzzyMatch query source options
      in if numLess (Num 0) (score match) then
           searchLoop query entries options
             (results @ [\<lparr>score = score match, matches = matches match,
                           highlight = highlight match, source = source, index = index\<rparr>])
         else searchLoop query entries options results)"

text \<open>The comparator of the final sort: \<^verbatim>\<open>order by score desc, text asc\<close>.\<close>

definition compareResults :: "FuzzySearchResult \<Rightarrow> FuzzySearchResult \<Rightarrow> int" where
  "compareResults a b =
     (if numEq (score a) (score b) then (if source a > source b then 1 else - 1)
      else if numLess (score b) (score a) then - 1 else 1)"

definition fuzzySearch ::
  "string \<Rightarrow> string list \<Rightarrow> FuzzyMatchOptions \<Rightarrow> FuzzySearchResult list" where
  "fuzzySearch query sources options =
     sortBy compareResults (searchLoop query (enumerate 0 sources) options [])"

section \<open>Notions used to state the properties\<close>

text \<open>
  The part \<^verbatim>\<open>[a-z0-9]+(?=[A-Z])\<close> of the first alternative in closed form: only the
  longest run of \<^verbatim>\<open>[a-z0-9]\<close> can be followed by a capital.
\<close>

definition humpFrom :: "string \<Rightarrow> nat \<Rightarrow> nat option" where
  "humpFrom s q =
     (if 1 \<le> runLength isLowerDigit s q \<and> q + runLength isLowerDigit s q < length s
         \<and> isUpperAZ (s ! (q + runLength isLowerDigit s q))
      then Some (q + runLength isLowerDigit s q) else None)"

text \<open>A source in which no capital letter \<^verbatim>\<open>A-Z\<close> follows another one directly.\<close>

definition noAdjacentCapitals :: "string \<Rightarrow> bool" where
  "noAdjacentCapitals s = list_all (\<lambda>(a, b). \<not> (isUpperAZ a \<and> isUpperAZ b)) (zip s (tl s))"

text \<open>What the loop of the tokenizer pushes.\<close>

definition isToken :: "string \<Rightarrow> bool" where
  "isToken t \<longleftrightarrow> t \<noteq> [] \<and> list_all isLowerDigit t"

text \<open>
  The score as the specification words it: the sum, over the match indices \<open>m\<close>, of the number
  of matches divided by the length of the source plus \<open>m\<close>.
\<close>

fun sumOfTerms :: "nat \<Rightarrow> nat \<Rightarrow> nat list \<Rightarrow> number" where
  "sumOfTerms n l [] = Num 0"
| "sumOfTerms n l (m # ms) = numAdd (numDivNat n (l + m)) (sumOfTerms n l ms)"

text \<open>
  A list of indices made of runs of consecutive offsets: the run \<open>(c, e)\<close> stands for the
  offsets from \<open>c\<close> up to \<open>e - 1\<close>.
\<close>

definition runs :: "(nat \<times> nat) list \<Rightarrow> nat list" where
  "runs bs = concat (map (\<lambda>(c, e). [c..<e]) bs)"

text \<open>
  Runs in a source of length \<open>n\<close> that start at or after \<open>from\<close>: none is empty, none
  ends beyond \<open>n\<close>, and each starts strictly after the start of the one before.
\<close>

definition runsWithin :: "nat \<Rightarrow> nat \<Rightarrow> (nat \<times> nat) list \<Rightarrow> bool" where
  "runsWithin from n bs \<longleftrightarrow>
     sorted_wrt (<) (map fst bs) \<and> list_all (\<lambda>(c, e). from \<le> c \<and> c < e \<and> e \<le> n) bs"

text \<open>
  The result of the loop in the words of the specification: the first algorithm of the list
  that is enabled and returns a non-empty list decides.
\<close>

definition noMatch :: "string \<Rightarrow> FuzzyMatchResult" where
  "noMatch s = \<lparr>score = Num 0, matches = [], highlight = s\<rparr>"

definition resultOf ::
  "MatchAlgorithm \<Rightarrow> string \<Rightarrow> string \<Rightarrow> FuzzyMatchOptions \<Rightarrow> FuzzyMatchResult" where
  "resultOf a q s opts =
     \<lparr>score = numMul (fuzzyMatchScore s (matcher a q s)) (Num (bias a opts)),
      matches = matcher a q s,
      highlight = formatHighlight s (matcher a q s)
        (case highlightTag opts of None \<Rightarrow> ''b'' | Some tag \<Rightarrow> tag)\<rparr>"

definition firstMatching ::
  "MatchAlgorithm list \<Rightarrow> string \<Rightarrow> string \<Rightarrow> FuzzyMatchOptions \<Rightarrow> MatchAlgorithm option" where
  "firstMatching algs q s opts = find (\<lambda>a. bias a opts \<noteq> 0 \<and> matcher a q s \<noteq> []) algs"

text \<open>
  The result list in the words of the specification: a candidate is kept when its score is
  above 0, and carries the result of \<open>fuzzyMatch\<close>, the candidate string and its position in
  the list; results are ordered by score, largest first, and by candidate string where the
  scores are equal.
\<close>

definition isMatch :: "string \<Rightarrow> FuzzyMatchOptions \<Rightarrow> nat \<times> string \<Rightarrow> bool" where
  "isMatch q opts entry \<longleftrightarrow> numLess (Num 0) (score (fuzzyMatch q (snd entry) opts))"

definition candidateResult ::
  "string \<Rightarrow> FuzzyMatchOptions \<Rightarrow> nat \<times> string \<Rightarrow> FuzzySearchResult" where
  "candidateResult q opts entry =
     \<lparr>score = score (fuzzyMatch q (snd entry) opts),
      matches = matches (fuzzyMatch q (snd entry) opts),
      highlight = highlight (fuzzyMatch q (snd entry) opts),
      source = snd entry, index = fst entry\<rparr>"



section \<open>Properties of the token scanner\<close>

lemma firstSome_None_iff: "firstSome f xs = None \<longleftrightarrow> (\<forall>x\<in>set xs. f x = None)"
  by (induction xs) (auto split: option.splits)

lemma runLength_le: "runLength P s p \<le> length s - p"
  unfolding runLength_def
  by (metis length_drop length_takeWhile_le)

lemma runLength_all:
  assumes "k < runLength P s p"
  shows "p + k < length s \<and> P (s ! (p + k))"
proof -
  from assms have k: "k < length (takeWhile P (drop p s))"
    by (simp add: runLength_def)
  have le: "length (takeWhile P (drop p s)) \<le> length s - p"
    by (metis length_drop length_takeWhile_le)
  from k le have b: "p + k < length s" by arith
  have "takeWhile P (drop p s) ! k = drop p s ! k"
    using k by (rule takeWhile_nth)
  moreover have "takeWhile P (drop p s) ! k \<in> set (takeWhile P (drop p s))"
    using k by simp
  ultimately have "P (drop p s ! k)"
    using set_takeWhileD by metis
  with b show ?thesis by simp
qed

lemma runLength_stop:
  assumes "p + runLength P s p < length s"
  shows "\<not> P (s ! (p + runLength P s p))"
proof -
  from assms have "length (takeWhile P (drop p s)) < length (drop p s)"
    by (simp add: runLength_def)
  then have "\<not> P (drop p s ! length (takeWhile P (drop p s)))"
    by (rule nth_length_takeWhile)
  with assms show ?thesis by (simp add: runLength_def)
qed

lemma runLength_zero_iff: "runLength P s p = 0 \<longleftrightarrow> (length s \<le> p \<or> \<not> P (s ! p))"
proof (cases "p < length s")
  case True
  then obtain c cs where d: "drop p s = c # cs" and c: "c = s ! p"
    by (metis Cons_nth_drop_Suc)
  show ?thesis using True by (simp add: runLength_def d c)
next
  case False
  then show ?thesis by (simp add: runLength_def)
qed

lemma runLength_max:
  assumes "\<And>k. k < n \<Longrightarrow> P (s ! (p + k))" and "p + n \<le> length s"
    and "p + n < length s \<Longrightarrow> \<not> P (s ! (p + n))"
  shows "runLength P s p = n"
proof (rule ccontr)
  assume ne: "runLength P s p \<noteq> n"
  show False
  proof (cases "runLength P s p < n")
    case True
    then have "p + runLength P s p < length s" using assms(2) by arith
    from runLength_stop[OF this] assms(1)[OF True] show False by simp
  next
    case False
    with ne have "n < runLength P s p" by arith
    from runLength_all[OF this] assms(3) show False by simp
  qed
qed

lemma runLength_within:
  assumes "k \<le> runLength P s p"
  shows "runLength P s (p + k) = runLength P s p - k"
proof (cases "p \<le> length s")
  case False
  then show ?thesis by (simp add: runLength_def)
next
  case True
  show ?thesis
  proof (rule runLength_max)
    fix j assume "j < runLength P s p - k"
    then have "k + j < runLength P s p" by arith
    from runLength_all[OF this] show "P (s ! (p + k + j))" by (simp add: add.assoc)
  next
    have "runLength P s p \<le> length s - p" by (rule runLength_le)
    then show "p + k + (runLength P s p - k) \<le> length s" using assms True by arith
  next
    assume "p + k + (runLength P s p - k) < length s"
    then have "p + runLength P s p < length s" using assms by simp
    from runLength_stop[OF this] show "\<not> P (s ! (p + k + (runLength P s p - k)))"
      using assms by simp
  qed
qed

lemma firstSome_greedy_lookahead:
  assumes disj: "\<And>c. Q c \<Longrightarrow> \<not> P c"
  shows "firstSome (\<lambda>k. lookahead Q s (q + k)) (greedy least P s q) =
     (if least \<le> runLength P s q \<and> q + runLength P s q < length s
         \<and> Q (s ! (q + runLength P s q))
      then Some (q + runLength P s q) else None)"
proof (cases "least \<le> runLength P s q")
  case False
  then show ?thesis by (simp add: greedy_def)
next
  case True
  then have g: "greedy least P s q = runLength P s q # rev [least..<runLength P s q]"
    by (simp add: greedy_def)
  have rest: "firstSome (\<lambda>k. lookahead Q s (q + k)) (rev [least..<runLength P s q]) = None"
    unfolding firstSome_None_iff
  proof
    fix k assume "k \<in> set (rev [least..<runLength P s q])"
    then have "k < runLength P s q" by simp
    from runLength_all[OF this] disj show "lookahead Q s (q + k) = None"
      by (auto simp: lookahead_def)
  qed
  show ?thesis
  proof (cases "lookahead Q s (q + runLength P s q)")
    case None
    then show ?thesis using True rest by (simp add: g) (simp add: lookahead_def split: if_splits)
  next
    case (Some e)
    then show ?thesis using True by (simp add: g) (simp add: lookahead_def split: if_splits)
  qed
qed

lemma upper_not_lowerDigit: "isUpperAZ c \<Longrightarrow> \<not> isLowerDigit c"
  by (auto simp: isUpperAZ_def isLowerDigit_def)

lemma upper_alnum: "isUpperAZ c \<Longrightarrow> isAlnum c"
  by (auto simp: isUpperAZ_def isAlnum_def)

lemma lowerDigit_alnum: "isLowerDigit c \<Longrightarrow> isAlnum c"
  by (auto simp: isLowerDigit_def isAlnum_def)

lemma alnum_cases: "isAlnum c \<longleftrightarrow> isUpperAZ c \<or> isLowerDigit c"
  by (auto simp: isUpperAZ_def isAlnum_def isLowerDigit_def)

lemma reHump_eq:
  "reHump s p = humpFrom s (if p < length s \<and> isUpperAZ (s ! p) then Suc p else p)"
proof -
  have inner: "\<And>q. firstSome (\<lambda>k. lookahead isUpperAZ s (q + k)) (greedy 1 isLowerDigit s q)
      = humpFrom s q"
    unfolding humpFrom_def by (rule firstSome_greedy_lookahead) (rule upper_not_lowerDigit)
  have r: "reHump s p =
     firstSome (humpFrom s) (if p < length s \<and> isUpperAZ (s ! p) then [Suc p, p] else [p])"
    unfolding reHump_def inner ..
  show ?thesis
  proof (cases "p < length s \<and> isUpperAZ (s ! p)")
    case True
    then have "runLength isLowerDigit s p = 0"
      by (simp add: runLength_zero_iff upper_not_lowerDigit)
    then have "humpFrom s p = None" by (simp add: humpFrom_def)
    then show ?thesis using True by (simp add: r split: option.splits)
  next
    case False
    then show ?thesis by (auto simp add: r split: option.splits)
  qed
qed

lemma reWord_eq:
  "reWord s p =
     (if 1 \<le> runLength isAlnum s p
      then Some (p + runLength isAlnum s p
                 + runLength (\<lambda>c. \<not> isAlnum c) s (p + runLength isAlnum s p))
      else None)"
proof (cases "1 \<le> runLength isAlnum s p")
  case False
  then show ?thesis by (simp add: reWord_def greedy_def)
next
  case True
  then have g: "greedy 1 isAlnum s p = runLength isAlnum s p # rev [1..<runLength isAlnum s p]"
    by (simp add: greedy_def)
  show ?thesis using True by (simp add: reWord_def g) (simp add: greedy_def)
qed

lemma reSep_eq:
  "reSep s p =
     (if p + runLength (\<lambda>c. \<not> isAlnum c) s p < length s
         \<and> isAlnum (s ! (p + runLength (\<lambda>c. \<not> isAlnum c) s p))
      then Some (p + runLength (\<lambda>c. \<not> isAlnum c) s p) else None)"
  unfolding reSep_def
  by (subst firstSome_greedy_lookahead) auto

lemma matchAt_nonalnum:
  assumes "p < length s \<Longrightarrow> \<not> isAlnum (s ! p)"
  shows "matchAt s p = reSep s p"
proof -
  have up: "\<not> (p < length s \<and> isUpperAZ (s ! p))"
    using assms upper_alnum by blast
  have "runLength isLowerDigit s p = 0"
    using assms lowerDigit_alnum by (auto simp: runLength_zero_iff)
  then have "humpFrom s p = None" by (simp add: humpFrom_def)
  moreover have "(if p < length s \<and> isUpperAZ (s ! p) then Suc p else p) = p"
    using up by simp
  ultimately have h: "reHump s p = None"
    by (simp only: reHump_eq)
  have "runLength isAlnum s p = 0"
    using assms by (auto simp: runLength_zero_iff)
  then have w: "reWord s p = None"
    by (simp add: reWord_eq)
  show ?thesis by (simp add: matchAt_def h w)
qed

lemma humpFrom_bounds:
  assumes "humpFrom s q = Some e"
  shows "q < e \<and> e < length s"
  using assms by (auto simp: humpFrom_def split: if_splits)

lemma matchAt_alnum:
  assumes "p < length s" and "isAlnum (s ! p)"
  shows "matchAt s p =
     Some (case humpFrom s (if isUpperAZ (s ! p) then Suc p else p) of
             Some e \<Rightarrow> e
           | None \<Rightarrow> p + runLength isAlnum s p
                      + runLength (\<lambda>c. \<not> isAlnum c) s (p + runLength isAlnum s p))"
proof -
  have "runLength isAlnum s p \<noteq> 0"
    using assms by (simp add: runLength_zero_iff)
  then have "1 \<le> runLength isAlnum s p" by arith
  then show ?thesis
    using assms(1) by (simp add: matchAt_def reHump_eq reWord_eq split: option.splits)
qed

lemma exec_at:
  assumes "p \<le> length s" and "matchAt s p = Some e"
  shows "exec s p = Some e"
proof -
  from assms(1) have "[p..<Suc (length s)] = p # [Suc p..<Suc (length s)]"
    by (simp add: upt_conv_Cons)
  then show ?thesis using assms(2) by (simp add: exec_def)
qed

lemma exec_None:
  assumes "\<And>i. p \<le> i \<Longrightarrow> i \<le> length s \<Longrightarrow> matchAt s i = None"
  shows "exec s p = None"
  unfolding exec_def firstSome_None_iff
proof
  fix i assume "i \<in> set [p..<Suc (length s)]"
  then have "p \<le> i" and "i \<le> length s" by auto
  then show "matchAt s i = None" by (rule assms)
qed

lemma nextTokenIdx_alnum:
  assumes "p < length s" and "isAlnum (s ! p)"
  shows "nextTokenIdx s p =
     (case humpFrom s (if isUpperAZ (s ! p) then Suc p else p) of
        Some e \<Rightarrow> e
      | None \<Rightarrow> p + runLength isAlnum s p
                 + runLength (\<lambda>c. \<not> isAlnum c) s (p + runLength isAlnum s p))"
proof -
  from assms(1) have "p \<le> length s" by simp
  from exec_at[OF this matchAt_alnum[OF assms]] show ?thesis
    by (simp add: nextTokenIdx_def)
qed

lemma nextTokenIdx_sep:
  assumes "p \<le> length s" and "p < length s \<Longrightarrow> \<not> isAlnum (s ! p)"
  shows "nextTokenIdx s p = p + runLength (\<lambda>c. \<not> isAlnum c) s p"
proof (cases "p + runLength (\<lambda>c. \<not> isAlnum c) s p < length s")
  case True
  from runLength_stop[OF True] have "isAlnum (s ! (p + runLength (\<lambda>c. \<not> isAlnum c) s p))"
    by simp
  with True have "reSep s p = Some (p + runLength (\<lambda>c. \<not> isAlnum c) s p)"
    by (simp add: reSep_eq)
  then have "matchAt s p = Some (p + runLength (\<lambda>c. \<not> isAlnum c) s p)"
    using matchAt_nonalnum[of p s] assms(2) by simp
  from exec_at[OF assms(1) this] show ?thesis by (simp add: nextTokenIdx_def)
next
  case False
  have le: "runLength (\<lambda>c. \<not> isAlnum c) s p \<le> length s - p" by (rule runLength_le)
  with False assms(1) have eq: "p + runLength (\<lambda>c. \<not> isAlnum c) s p = length s" by arith
  have "exec s p = None"
  proof (rule exec_None)
    fix i assume i: "p \<le> i" "i \<le> length s"
    define k where "k = i - p"
    have ik: "i = p + k" using i by (simp add: k_def)
    have kn: "k \<le> runLength (\<lambda>c. \<not> isAlnum c) s p" using eq i ik by arith
    have na: "i < length s \<Longrightarrow> \<not> isAlnum (s ! i)"
    proof -
      assume "i < length s"
      then have "k < runLength (\<lambda>c. \<not> isAlnum c) s p" using eq ik by arith
      from runLength_all[OF this] show ?thesis by (simp add: ik)
    qed
    have "runLength (\<lambda>c. \<not> isAlnum c) s i = runLength (\<lambda>c. \<not> isAlnum c) s p - k"
      unfolding ik by (rule runLength_within[OF kn])
    then have "i + runLength (\<lambda>c. \<not> isAlnum c) s i = length s" using eq kn ik by arith
    then have "reSep s i = None" by (simp add: reSep_eq)
    then show "matchAt s i = None" using matchAt_nonalnum[of i s] na by simp
  qed
  then show ?thesis using eq by (simp add: nextTokenIdx_def)
qed

lemma nextTokenIdx_beyond:
  assumes "length s \<le> p"
  shows "nextTokenIdx s p = length s"
proof (cases "p = length s")
  case True
  have "runLength (\<lambda>c. \<not> isAlnum c) s (length s) = 0" by (simp add: runLength_def)
  then show ?thesis using nextTokenIdx_sep[of "length s" s] True by simp
next
  case False
  with assms have "length s < p" by simp
  then show ?thesis by (simp add: nextTokenIdx_def exec_def)
qed

lemma nextTokenIdx_le: "nextTokenIdx s p \<le> length s"
proof (cases "p < length s")
  case False
  then show ?thesis by (simp add: nextTokenIdx_beyond)
next
  case True
  show ?thesis
  proof (cases "isAlnum (s ! p)")
    case False
    have "runLength (\<lambda>c. \<not> isAlnum c) s p \<le> length s - p" by (rule runLength_le)
    then show ?thesis using True False nextTokenIdx_sep[of p s] by simp
  next
    case al: True
    have a: "runLength isAlnum s p \<le> length s - p" by (rule runLength_le)
    have b: "runLength (\<lambda>c. \<not> isAlnum c) s (p + runLength isAlnum s p)
        \<le> length s - (p + runLength isAlnum s p)" by (rule runLength_le)
    have h: "\<And>e. humpFrom s (if isUpperAZ (s ! p) then Suc p else p) = Some e \<Longrightarrow> e \<le> length s"
      using humpFrom_bounds by (metis less_imp_le_nat)
    show ?thesis
    proof (cases "humpFrom s (if isUpperAZ (s ! p) then Suc p else p)")
      case None
      then show ?thesis using a b True by (simp add: nextTokenIdx_alnum[OF True al])
    next
      case (Some e)
      then show ?thesis using h by (simp add: nextTokenIdx_alnum[OF True al])
    qed
  qed
qed

lemma nextTokenIdx_progress:
  assumes "p < length s"
  shows "p < nextTokenIdx s p"
proof (cases "isAlnum (s ! p)")
  case False
  then have "runLength (\<lambda>c. \<not> isAlnum c) s p \<noteq> 0"
    using assms by (simp add: runLength_zero_iff)
  then show ?thesis using assms False nextTokenIdx_sep[of p s] by simp
next
  case True
  have "runLength isAlnum s p \<noteq> 0"
    using assms True by (simp add: runLength_zero_iff)
  moreover have "\<And>e. humpFrom s (if isUpperAZ (s ! p) then Suc p else p) = Some e \<Longrightarrow> p < e"
    using humpFrom_bounds by (fastforce split: if_splits)
  ultimately show ?thesis
    by (cases "humpFrom s (if isUpperAZ (s ! p) then Suc p else p)")
       (simp_all add: nextTokenIdx_alnum[OF assms True])
qed

lemma nextTokenIdx_ge:
  assumes "p \<le> length s"
  shows "p \<le> nextTokenIdx s p"
  using assms nextTokenIdx_progress[of p s] nextTokenIdx_beyond[of s p]
  by (cases "p < length s") auto

section \<open>Termination of the loops\<close>

text \<open>
  For a function \<open>f\<close> defined by recursion, \<open>f_dom x\<close> says that the recursion of \<open>f\<close> from
  the arguments \<open>x\<close> is well-founded: every chain of recursive calls from \<open>x\<close> is finite.
\<close>

lemma tokenizeLoop_total: "All tokenizeLoop_dom"
  by (relation "measure (\<lambda>(source, idx, tokens). length source - idx)")
     (auto intro: diff_less_mono2 nextTokenIdx_progress)

termination tokenizeLoop
  by (rule tokenizeLoop_total)

declare tokenizeLoop.simps [simp del]

lemma nextTokenIdx_restart:
  assumes "nextTokenIdx s p < length s"
  shows "p < nextTokenIdx s p"
proof -
  have "p < length s"
    using assms nextTokenIdx_beyond[of s p] by (cases "p < length s") auto
  then show ?thesis by (rule nextTokenIdx_progress)
qed

lemma letterTokensLoop_total: "All letterTokensLoop_dom"
proof (relation "measures [\<lambda>(query, source, startPos, queue, cursor, ms). length source - startPos,
                           \<lambda>(query, source, startPos, queue, cursor, ms). length source - cursor]",
       goal_cases)
  case 1
  show ?case by simp
next
  case (2 query source startPos queue cursor ms letter rest nextPos)
  then show ?case using nextTokenIdx_restart[of source startPos] by auto
next
  case (3 query source startPos queue cursor ms letter rest)
  then show ?case by auto
next
  case (4 query source startPos queue cursor ms letter rest)
  then show ?case using nextTokenIdx_progress[of cursor source] by auto
qed

termination letterTokensLoop
  by (rule letterTokensLoop_total)

declare letterTokensLoop.simps [simp del]

lemma tokensStrictLoop_total: "All tokensStrictLoop_dom"
proof (relation "measures [\<lambda>(query, source, startPos, queue, cursor, ms). length queue,
                           \<lambda>(query, source, startPos, queue, cursor, ms). length source - cursor]",
       goal_cases)
  case 1
  show ?case by simp
next
  case (2 query source startPos queue cursor ms token rest cursorEnd str)
  then show ?case by auto
next
  case (3 query source startPos queue cursor ms token rest cursorEnd str)
  then show ?case using nextTokenIdx_progress[of cursor source] by auto
qed

termination tokensStrictLoop
  by (rule tokensStrictLoop_total)

declare tokensStrictLoop.simps [simp del]

lemma nextTokenIdx_after:
  assumes "cursor < length s" and "cursor \<le> e"
  shows "cursor < nextTokenIdx s e"
proof (cases "e < length s")
  case True
  from nextTokenIdx_progress[OF this] assms(2) show ?thesis by simp
next
  case False
  then show ?thesis using assms(1) by (simp add: nextTokenIdx_beyond)
qed

lemma tokensLenientLoop_total: "All tokensLenientLoop_dom"
  by (relation "measure (\<lambda>(queryTokens, source, cursor, ms). length source - cursor)")
     (auto intro!: diff_less_mono2 simp: nextTokenIdx_after nextTokenIdx_progress)

termination tokensLenientLoop
  by (rule tokensLenientLoop_total)

declare tokensLenientLoop.simps [simp del]

section \<open>The repository's tests\<close>

text \<open>
  The embedding on the inputs of the repository's tests, with the results the tests expect.
\<close>

lemma test_nextTokenIdx:
  "nextTokenIdx ''getText'' 0 = 3" "nextTokenIdx ''getText'' 1 = 3" "nextTokenIdx ''getText'' 3 = 7"
  "nextTokenIdx ''get text'' 0 = 4" "nextTokenIdx ''get_text'' 0 = 4"
  "nextTokenIdx ''get-text'' 0 = 4" "nextTokenIdx ''Get / Text'' 0 = 6"
  "nextTokenIdx ''Get / Text'' 3 = 6"
  "nextTokenIdx ''Get / AccessToken / Retry'' 0 = 6"
  "nextTokenIdx ''Get / AccessToken / Retry'' 1 = 6"
  "nextTokenIdx ''Get / AccessToken / Retry'' 6 = 12"
  "nextTokenIdx ''Get / AccessToken / Retry'' 12 = 20"
  by code_simp+

lemma test_tokenize:
  "tokenize ''helloWorld'' = [''hello'', ''world'']"
  "tokenize ''hello / world'' = [''hello'', ''world'']"
  "tokenize ''hello / worldAndStuff'' = [''hello'', ''world'', ''and'', ''stuff'']"
  "tokenize ''  #@$! Hello @#$@ / World!%@#'' = [''hello'', ''world'']"
  by code_simp+

lemma test_match_whole_words:
  "matches (fuzzyMatch ''text'' ''getText'' noOptions) = [3, 4, 5, 6]"
  "matches (fuzzyMatch ''text'' ''get-text'' noOptions) = [4, 5, 6, 7]"
  "matches (fuzzyMatch ''text'' ''get_text'' noOptions) = [4, 5, 6, 7]"
  "matches (fuzzyMatch ''text'' ''Get Text'' noOptions) = [4, 5, 6, 7]"
  "matches (fuzzyMatch ''text'' ''no match'' noOptions) = []"
  by code_simp+

lemma test_match_token_starts:
  "matches (fuzzyMatch ''gt'' ''getText'' noOptions) = [0, 3]"
  "matches (fuzzyMatch ''gt'' ''get-text'' noOptions) = [0, 4]"
  "matches (fuzzyMatch ''gt'' ''get_text'' noOptions) = [0, 4]"
  "matches (fuzzyMatch ''gt'' ''Get Text'' noOptions) = [0, 4]"
  "matches (fuzzyMatch ''gt'' ''no match'' noOptions) = []"
  by code_simp+

lemma test_match_wildcard:
  "matches (fuzzyMatch ''text'' ''batchExtract'' noOptions) = [2, 5, 6, 7]"
  "matches (fuzzyMatch ''text'' ''batch-extract'' noOptions) = [2, 6, 7, 8]"
  "matches (fuzzyMatch ''text'' ''batch_extract'' noOptions) = [2, 6, 7, 8]"
  "matches (fuzzyMatch ''text'' ''Batch Extract'' noOptions) = [2, 6, 7, 8]"
  "matches (fuzzyMatch ''text'' ''No match'' noOptions) = []"
  by code_simp+

lemma test_match_tokens:
  "matches (fuzzyMatch ''map'' ''Math / Map Range'' (noOptions\<lparr>biasWildcard := Some 0\<rparr>)) = [7, 8, 9]"
  "matches (fuzzyMatch ''list last order'' ''Get Last Orders'' noOptions)
     = [4, 5, 6, 7, 9, 10, 11, 12, 13]"
  "matches (fuzzyMatch ''get youtube video'' ''youtube_list_videos'' noOptions)
     = [0, 1, 2, 3, 4, 5, 6, 13, 14, 15, 16, 17]"
  "matches (fuzzyMatch ''get youtube video'' ''YouTube List Videos'' noOptions)
     = [0, 1, 2, 3, 4, 5, 6, 13, 14, 15, 16, 17]"
  "matches (fuzzyMatch ''mathmap'' ''Math / Map Range'' (noOptions\<lparr>biasWildcard := Some 0\<rparr>))
     = [0, 1, 2, 3, 7, 8, 9]"
  by code_simp+

lemma test_highlight:
  "highlight (fuzzyMatch ''aas'' ''Value.equalsText'' noOptions)
     = ''V<b>a</b>lue.equ<b>a</b>l<b>s</b>Text''"
  "matches (fuzzyMatch ''qall'' ''DOM.queryAll'' noOptions) = [4, 9, 10, 11]"
  by code_simp+

section \<open>Range and monotonicity of the token scanner\<close>

lemma noAdjacentCapitals_nth:
  assumes "noAdjacentCapitals s" and "Suc i < length s"
  shows "\<not> (isUpperAZ (s ! i) \<and> isUpperAZ (s ! Suc i))"
proof -
  from assms(2) have i: "i < length (zip s (tl s))" by simp
  then have "zip s (tl s) ! i \<in> set (zip s (tl s))" by (rule nth_mem)
  moreover have "zip s (tl s) ! i = (s ! i, s ! Suc i)"
    using assms(2) by (simp add: nth_tl)
  ultimately show ?thesis
    using assms(1) by (auto simp: noAdjacentCapitals_def list_all_iff)
qed

lemma humpFrom_Suc:
  assumes "isLowerDigit (s ! q)" and "q < length s" and "isLowerDigit (s ! Suc q)" "Suc q < length s"
  shows "humpFrom s (Suc q) = humpFrom s q"
proof -
  have "runLength isLowerDigit s q \<noteq> 0" using assms by (simp add: runLength_zero_iff)
  then have one: "1 \<le> runLength isLowerDigit s q" by arith
  from runLength_within[OF this] have r: "runLength isLowerDigit s (Suc q) = runLength isLowerDigit s q - 1"
    by simp
  have "runLength isLowerDigit s (Suc q) \<noteq> 0" using assms by (simp add: runLength_zero_iff)
  with r have two: "2 \<le> runLength isLowerDigit s q" by arith
  have e: "Suc q + runLength isLowerDigit s (Suc q) = q + runLength isLowerDigit s q"
    using r one by arith
  have "1 \<le> runLength isLowerDigit s (Suc q)" using r two by arith
  then show ?thesis unfolding humpFrom_def e using one by simp
qed

lemma nextTokenIdx_sep_Suc:
  assumes "Suc p < nextTokenIdx s p" and "p < length s" and "\<not> isAlnum (s ! p)"
  shows "nextTokenIdx s (Suc p) = nextTokenIdx s p"
proof -
  let ?n = "runLength (\<lambda>c. \<not> isAlnum c) s p"
  have f: "nextTokenIdx s p = p + ?n" using assms(2,3) nextTokenIdx_sep[of p s] by simp
  with assms(1) have n: "2 \<le> ?n" by arith
  then have "1 < ?n" by arith
  from runLength_all[OF this] have s1: "Suc p < length s" "\<not> isAlnum (s ! Suc p)" by simp_all
  have "1 \<le> ?n" using n by arith
  from runLength_within[OF this]
  have "runLength (\<lambda>c. \<not> isAlnum c) s (Suc p) = ?n - 1" by simp
  then show ?thesis using f n s1 nextTokenIdx_sep[of "Suc p" s] by simp
qed

lemma nextTokenIdx_step_mono:
  assumes len: "Suc p \<le> length s"
    and caps: "Suc p < length s \<Longrightarrow> \<not> (isUpperAZ (s ! p) \<and> isUpperAZ (s ! Suc p))"
  shows "nextTokenIdx s p \<le> nextTokenIdx s (Suc p)"
proof (cases "Suc p < nextTokenIdx s p")
  case False
  then have "nextTokenIdx s p \<le> Suc p" by simp
  also have "Suc p \<le> nextTokenIdx s (Suc p)" using len by (rule nextTokenIdx_ge)
  finally show ?thesis .
next
  case far: True
  have p: "p < length s" using len by simp
  have "nextTokenIdx s p \<le> length s" by (rule nextTokenIdx_le)
  with far have sp: "Suc p < length s" by simp
  show ?thesis
  proof (cases "isAlnum (s ! p)")
    case False
    from nextTokenIdx_sep_Suc[OF far p False] show ?thesis by simp
  next
    case al: True
    let ?q0 = "if isUpperAZ (s ! p) then Suc p else p"
    let ?a = "runLength isAlnum s p"
    let ?b = "runLength (\<lambda>c. \<not> isAlnum c) s (p + ?a)"
    note fp = nextTokenIdx_alnum[OF p al]
    have a0: "?a \<noteq> 0" using p al by (simp add: runLength_zero_iff)
    show ?thesis
    proof (cases "humpFrom s ?q0")
      case (Some e)
      then have fpe: "nextTokenIdx s p = e" by (simp add: fp)
      have lower1: "isLowerDigit (s ! Suc p)"
      proof (cases "isUpperAZ (s ! p)")
        case True
        with Some have "runLength isLowerDigit s (Suc p) \<noteq> 0"
          by (auto simp: humpFrom_def split: if_splits)
        then show ?thesis by (simp add: runLength_zero_iff)
      next
        case False
        with Some far fpe have "1 < runLength isLowerDigit s p"
          by (auto simp: humpFrom_def split: if_splits)
        from runLength_all[OF this] show ?thesis by simp
      qed
      then have al1: "isAlnum (s ! Suc p)" and nu1: "\<not> isUpperAZ (s ! Suc p)"
        using lowerDigit_alnum upper_not_lowerDigit by blast+
      have "humpFrom s (Suc p) = Some e"
      proof (cases "isUpperAZ (s ! p)")
        case True
        with Some show ?thesis by simp
      next
        case False
        with al have "isLowerDigit (s ! p)" by (simp add: alnum_cases)
        from humpFrom_Suc[OF this p lower1 sp] Some False show ?thesis by simp
      qed
      then have "nextTokenIdx s (Suc p) = e"
        using nu1 by (simp add: nextTokenIdx_alnum[OF sp al1])
      with fpe show ?thesis by simp
    next
      case None
      then have fpn: "nextTokenIdx s p = p + ?a + ?b" by (simp add: fp)
      show ?thesis
      proof (cases "isAlnum (s ! Suc p)")
        case False
        have "?a = 1"
        proof (rule runLength_max)
          fix k :: nat assume "k < 1"
          then show "isAlnum (s ! (p + k))" using al by simp
        next
          show "p + 1 \<le> length s" using len by simp
        next
          show "\<not> isAlnum (s ! (p + 1))" using False by simp
        qed
        then show ?thesis using fpn nextTokenIdx_sep[of "Suc p" s] len False by simp
      next
        case al1: True
        have "?a \<noteq> 0" by (rule a0)
        then have one: "1 \<le> ?a" by arith
        from runLength_within[OF one]
        have a1: "runLength isAlnum s (Suc p) = ?a - 1" by simp
        then have ends: "Suc p + runLength isAlnum s (Suc p) = p + ?a" using one by arith
        let ?q1 = "if isUpperAZ (s ! Suc p) then Suc (Suc p) else Suc p"
        have "humpFrom s ?q1 = None"
        proof (cases "isUpperAZ (s ! p)")
          case True
          with caps[OF sp] have "\<not> isUpperAZ (s ! Suc p)" by simp
          with None True show ?thesis by simp
        next
          case lowp: False
          with al have lp: "isLowerDigit (s ! p)" by (simp add: alnum_cases)
          from None lowp have hp: "humpFrom s p = None" by simp
          show ?thesis
          proof (cases "isUpperAZ (s ! Suc p)")
            case True
            have "runLength isLowerDigit s p = 1"
            proof (rule runLength_max)
              fix k :: nat assume "k < 1"
              then show "isLowerDigit (s ! (p + k))" using lp by simp
            next
              show "p + 1 \<le> length s" using len by simp
            next
              show "\<not> isLowerDigit (s ! (p + 1))"
                using True upper_not_lowerDigit by simp
            qed
            with True sp have "humpFrom s p = Some (Suc p)" by (simp add: humpFrom_def)
            with hp show ?thesis by simp
          next
            case False
            with al1 have "isLowerDigit (s ! Suc p)" by (simp add: alnum_cases)
            from humpFrom_Suc[OF lp p this sp] hp False show ?thesis by simp
          qed
        qed
        then have "nextTokenIdx s (Suc p) = p + ?a + ?b"
          unfolding nextTokenIdx_alnum[OF sp al1] ends by simp
        with fpn show ?thesis by simp
      qed
    qed
  qed
qed

lemma nextTokenIdx_mono:
  assumes "noAdjacentCapitals s" and "p \<le> q" and "q \<le> length s"
  shows "nextTokenIdx s p \<le> nextTokenIdx s q"
  using assms(2,3)
proof (induction q rule: dec_induct)
  case base
  show ?case by simp
next
  case (step n)
  then have "nextTokenIdx s p \<le> nextTokenIdx s n" by simp
  also have "nextTokenIdx s n \<le> nextTokenIdx s (Suc n)"
  proof (rule nextTokenIdx_step_mono)
    show "Suc n \<le> length s" using step.prems .
    show "\<not> (isUpperAZ (s ! n) \<and> isUpperAZ (s ! Suc n))" if "Suc n < length s"
      using assms(1) that by (rule noAdjacentCapitals_nth)
  qed
  finally show ?case .
qed

text \<open>
  C2 (amended). For offsets \<open>p \<le> q \<le> length s\<close> into a source \<open>s\<close> the scanner's result lies between its
  start position and the length of the source, and it is monotone in the start position when
  the source holds no two adjacent capital letters \<^verbatim>\<open>A-Z\<close>.
\<close>

theorem nextTokenIdx_range_monotone:
  assumes "p \<le> q" and "q \<le> length s"
  shows "p \<le> nextTokenIdx s p \<and> nextTokenIdx s p \<le> length s
     \<and> q \<le> nextTokenIdx s q \<and> nextTokenIdx s q \<le> length s
     \<and> (noAdjacentCapitals s \<longrightarrow> nextTokenIdx s p \<le> nextTokenIdx s q)"
proof -
  from assms have p: "p \<le> length s" by simp
  have "p \<le> nextTokenIdx s p" using p by (rule nextTokenIdx_ge)
  moreover have "q \<le> nextTokenIdx s q" using assms(2) by (rule nextTokenIdx_ge)
  moreover have "noAdjacentCapitals s \<longrightarrow> nextTokenIdx s p \<le> nextTokenIdx s q"
    using nextTokenIdx_mono[OF _ assms] by blast
  ultimately show ?thesis by (simp add: nextTokenIdx_le)
qed

theorem nextTokenIdx_range_monotone_witness:
  "(0::nat) \<le> 3 \<and> 3 \<le> length ''getText'' \<and> noAdjacentCapitals ''getText''
     \<and> nextTokenIdx ''getText'' 0 \<le> nextTokenIdx ''getText'' 3
     \<and> nextTokenIdx ''getText'' 3 \<le> length ''getText''"
proof -
  have h1: "(0::nat) \<le> 3" by simp
  have h2: "3 \<le> length ''getText''" by simp
  have h3: "noAdjacentCapitals ''getText''" by code_simp
  from nextTokenIdx_range_monotone[OF h1 h2] h1 h2 h3 show ?thesis by blast
qed

text \<open>
  C2 as stated fails: in \<^verbatim>\<open>AAbC\<close> the scan from offset 0 ends at 4 and the scan from
  offset 1 ends at 3.
\<close>

theorem nextTokenIdx_not_monotone:
  "(0::nat) \<le> 1 \<and> 1 \<le> length ''AAbC'' \<and> nextTokenIdx ''AAbC'' 0 = 4 \<and> nextTokenIdx ''AAbC'' 1 = 3
     \<and> \<not> nextTokenIdx ''AAbC'' 0 \<le> nextTokenIdx ''AAbC'' 1"
  by code_simp

section \<open>Tokens are fixed points of the normalizer\<close>

lemma toLowerChar_alnum:
  assumes "isAlnum c"
  shows "isLowerDigit (toLowerChar c)"
proof (cases "65 \<le> code c \<and> code c \<le> 90")
  case True
  then have "toLowerChar c = char_of (code c + 32)" by (simp add: toLowerChar_def)
  moreover have "code (char_of (code c + 32)) = code c + 32"
    using True by (simp add: code_def)
  ultimately show ?thesis using True by (simp add: isLowerDigit_def)
next
  case False
  with assms have "toLowerChar c = c" by (auto simp: toLowerChar_def isAlnum_def)
  with assms False show ?thesis by (auto simp: isAlnum_def isLowerDigit_def)
qed

lemma toLowerChar_lowerDigit: "isLowerDigit c \<Longrightarrow> toLowerChar c = c"
  by (auto simp: toLowerChar_def isLowerDigit_def)

lemma lowerDigit_letterOrNumber: "isLowerDigit c \<Longrightarrow> isLetterOrNumber c"
  by (auto simp: isLetterOrNumber_def isAlnum_def isLowerDigit_def)

lemma normalizeToken_alnum:
  assumes "\<forall>c\<in>set t. isAlnum c"
  shows "normalizeToken t = map toLowerChar t"
proof -
  have "\<forall>c\<in>set (map toLowerChar t). isLetterOrNumber c"
    using assms toLowerChar_alnum lowerDigit_letterOrNumber by auto
  then show ?thesis by (simp add: normalizeToken_def toLowerCase_def)
qed

lemma normalizeToken_fixed:
  assumes "\<forall>c\<in>set t. isLowerDigit c"
  shows "normalizeToken t = t"
proof -
  have "\<forall>c\<in>set t. isAlnum c" using assms lowerDigit_alnum by blast
  then have "normalizeToken t = map toLowerChar t" by (rule normalizeToken_alnum)
  also have "\<dots> = t" using assms by (simp add: map_idI toLowerChar_lowerDigit)
  finally show ?thesis .
qed

lemma isToken_pushed:
  assumes "filter isAlnum x \<noteq> []"
  shows "isToken (normalizeToken (filter isAlnum x))"
proof -
  have "normalizeToken (filter isAlnum x) = map toLowerChar (filter isAlnum x)"
    by (rule normalizeToken_alnum) simp
  then show ?thesis using assms toLowerChar_alnum by (simp add: isToken_def list_all_iff)
qed

lemma tokenizeLoop_tokens:
  assumes "list_all isToken toks"
  shows "list_all isToken (tokenizeLoop s idx toks)"
  using assms
proof (induction s idx toks rule: tokenizeLoop.induct)
  case (1 s idx toks)
  show ?case
  proof (cases "idx < length s")
    case False
    then show ?thesis using "1.prems" by (subst tokenizeLoop.simps) simp
  next
    case True
    let ?next = "nextTokenIdx s idx"
    let ?token = "filter isAlnum (substring s idx ?next)"
    let ?toks = "if length ?token > 0 then toks @ [normalizeToken ?token] else toks"
    have "list_all isToken ?toks"
      using "1.prems" isToken_pushed[of "substring s idx ?next"] by simp
    from "1.IH"[OF True refl refl this]
    have "list_all isToken (tokenizeLoop s ?next ?toks)" .
    then show ?thesis using True by (subst tokenizeLoop.simps) (simp add: Let_def)
  qed
qed

lemma tokenize_tokens: "list_all isToken (tokenize s)"
  unfolding tokenize_def by (rule tokenizeLoop_tokens) simp

lemma runLength_full:
  assumes "\<forall>c\<in>set s. P c"
  shows "runLength P s 0 = length s"
proof -
  from assms have "takeWhile P (drop 0 s) = s" by (simp add: takeWhile_eq_all_conv)
  then show ?thesis unfolding runLength_def by (rule arg_cong)
qed

lemma nextTokenIdx_token:
  assumes "isToken t"
  shows "nextTokenIdx t 0 = length t"
proof -
  from assms have ne: "0 < length t" and low: "\<forall>c\<in>set t. isLowerDigit c"
    by (simp_all add: isToken_def list_all_iff)
  then have l0: "isLowerDigit (t ! 0)" by simp
  then have al: "isAlnum (t ! 0)" and nu: "\<not> isUpperAZ (t ! 0)"
    using lowerDigit_alnum upper_not_lowerDigit by blast+
  have "runLength isLowerDigit t 0 = length t" using low by (rule runLength_full)
  then have h: "humpFrom t 0 = None" by (simp add: humpFrom_def)
  have "\<forall>c\<in>set t. isAlnum c" using low lowerDigit_alnum by blast
  then have a: "runLength isAlnum t 0 = length t" by (rule runLength_full)
  have b: "runLength (\<lambda>c. \<not> isAlnum c) t (length t) = 0" by (simp add: runLength_def)
  show ?thesis using nu h a b by (simp add: nextTokenIdx_alnum[OF ne al])
qed

lemma tokenize_token:
  assumes "isToken t"
  shows "tokenize t = [t]"
proof -
  from assms have ne: "0 < length t" and low: "\<forall>c\<in>set t. isLowerDigit c"
    by (simp_all add: isToken_def list_all_iff)
  have al: "\<forall>c\<in>set t. isAlnum c" using low lowerDigit_alnum by blast
  have sub: "substring t 0 (length t) = t" by (simp add: substring_def)
  have fil: "filter isAlnum t = t" using al by simp
  have norm: "normalizeToken t = t" using low by (rule normalizeToken_fixed)
  have stop: "tokenizeLoop t (length t) [t] = [t]" by (subst tokenizeLoop.simps) simp
  show ?thesis
    unfolding tokenize_def
    using ne stop
    by (subst tokenizeLoop.simps) (simp add: nextTokenIdx_token[OF assms] sub fil norm)
qed

text \<open>
  C10. Every element of \<open>tokenize s\<close> is a non-empty string of lowercase ASCII letters and
  digits; \<open>normalizeToken\<close> leaves it as it is and \<open>tokenize\<close> returns it as the only token.
\<close>

theorem tokenize_elements:
  assumes "t \<in> set (tokenize s)"
  shows "t \<noteq> [] \<and> list_all isLowerDigit t \<and> normalizeToken t = t \<and> tokenize t = [t]"
proof -
  have "list_all isToken (tokenize s)" by (rule tokenize_tokens)
  with assms have tok: "isToken t" by (simp add: list_all_iff)
  then have "\<forall>c\<in>set t. isLowerDigit c" by (simp add: isToken_def list_all_iff)
  then have "normalizeToken t = t" by (rule normalizeToken_fixed)
  with tok tokenize_token[OF tok] show ?thesis by (simp add: isToken_def)
qed

theorem tokenize_elements_witness:
  "''world'' \<in> set (tokenize ''hello / worldAndStuff'')
     \<and> tokenize ''hello / worldAndStuff'' = [''hello'', ''world'', ''and'', ''stuff'']
     \<and> ''world'' \<noteq> [] \<and> list_all isLowerDigit ''world''
     \<and> normalizeToken ''world'' = ''world'' \<and> tokenize ''world'' = [''world'']"
proof -
  have t: "tokenize ''hello / worldAndStuff'' = [''hello'', ''world'', ''and'', ''stuff'']"
    by code_simp
  have h: "''world'' \<in> set (tokenize ''hello / worldAndStuff'')"
    unfolding t by simp
  from tokenize_elements[OF h] h t show ?thesis by simp
qed

section \<open>Totality of the matching algorithms\<close>



section \<open>The score is the sum of its terms\<close>

lemma numAdd_commute: "numAdd a b = numAdd b a"
  by (cases a; cases b) simp_all

lemma numAdd_assoc: "numAdd (numAdd a b) c = numAdd a (numAdd b c)"
  by (cases a; cases b; cases c) simp_all

lemma numAdd_zero: "numAdd (Num 0) a = a"
  by (cases a) simp_all

lemma score_loop_sum:
  "foldl (\<lambda>sum m. numAdd sum (numDivNat n (l + m))) acc ms = numAdd acc (sumOfTerms n l ms)"
proof (induction ms arbitrary: acc)
  case Nil
  show ?case by (cases acc) simp_all
next
  case (Cons m ms)
  show ?case by (simp add: Cons.IH numAdd_assoc)
qed

lemma numDivNat_pos: "0 < n \<Longrightarrow> numLess (Num 0) (numDivNat n d)"
  by (simp add: numDivNat_def)

lemma numAdd_pos:
  assumes "a = Num 0 \<or> numLess (Num 0) a" and "numLess (Num 0) b"
  shows "numLess (Num 0) (numAdd a b)"
  using assms by (cases a; cases b) auto

lemma score_loop_pos:
  assumes "0 < n" and "numLess (Num 0) acc"
  shows "numLess (Num 0) (foldl (\<lambda>sum m. numAdd sum (numDivNat n (l + m))) acc ms)"
  using assms(2)
proof (induction ms arbitrary: acc)
  case Nil
  then show ?case by simp
next
  case (Cons m ms)
  have "numLess (Num 0) (numAdd acc (numDivNat n (l + m)))"
    using Cons.prems numDivNat_pos[OF assms(1)] by (simp add: numAdd_pos)
  from Cons.IH[OF this] show ?case by simp
qed

lemma fuzzyMatchScore_pos:
  assumes "ms \<noteq> []"
  shows "numLess (Num 0) (fuzzyMatchScore s ms)"
proof -
  from assms obtain m rest where ms: "ms = m # rest" by (cases ms) auto
  have n: "0 < length ms" using assms by simp
  have "numLess (Num 0) (numAdd (Num 0) (numDivNat (length ms) (length s + m)))"
    using numDivNat_pos[OF n] by (simp add: numAdd_zero)
  from score_loop_pos[OF n this, of "length s" rest]
  show ?thesis unfolding fuzzyMatchScore_def Let_def by (simp add: ms)
qed

lemma sumOfTerms_rat:
  assumes "0 < l"
  shows "sumOfTerms n l ms = Num (\<Sum>m\<leftarrow>ms. of_nat n / of_nat (l + m))"
  using assms by (induction ms) (simp_all add: numDivNat_def)

lemma fuzzyMatchScore_sum: "fuzzyMatchScore s ms = sumOfTerms (length ms) (length s) ms"
  unfolding fuzzyMatchScore_def Let_def by (simp add: score_loop_sum numAdd_zero)

text \<open>
  C9. \<open>fuzzyMatchScore s ms\<close> is the sum over the indices \<open>m\<close> of \<open>ms\<close> of
  \<open>length ms / (length s + m)\<close>; for a non-empty source this is the rational sum. It is 0 for
  the empty list and greater than 0 for every non-empty list (\<^verbatim>\<open>Infinity\<close> when the only
  division is by zero).
\<close>

theorem fuzzyMatchScore_spec:
  "fuzzyMatchScore s ms = sumOfTerms (length ms) (length s) ms
   \<and> (0 < length s \<longrightarrow>
        fuzzyMatchScore s ms = Num (\<Sum>m\<leftarrow>ms. of_nat (length ms) / of_nat (length s + m)))
   \<and> fuzzyMatchScore s [] = Num 0
   \<and> (ms \<noteq> [] \<longrightarrow> numLess (Num 0) (fuzzyMatchScore s ms))"
proof -
  have "0 < length s \<longrightarrow>
      fuzzyMatchScore s ms = Num (\<Sum>m\<leftarrow>ms. of_nat (length ms) / of_nat (length s + m))"
    using sumOfTerms_rat[of "length s" "length ms" ms] by (simp add: fuzzyMatchScore_sum)
  moreover have "fuzzyMatchScore s [] = Num 0" by (simp add: fuzzyMatchScore_def)
  moreover have "ms \<noteq> [] \<longrightarrow> numLess (Num 0) (fuzzyMatchScore s ms)"
    using fuzzyMatchScore_pos by blast
  ultimately show ?thesis using fuzzyMatchScore_sum by blast
qed

theorem fuzzyMatchScore_spec_witness:
  "0 < length ''getText'' \<and> [3, 4, 5, 6] \<noteq> ([] :: nat list)
   \<and> fuzzyMatchScore ''getText'' [3, 4, 5, 6] = Num (4 / 10 + 4 / 11 + 4 / 12 + 4 / 13)
   \<and> numLess (Num 0) (fuzzyMatchScore ''getText'' [3, 4, 5, 6])
   \<and> fuzzyMatchScore '''' [0] = PosInf"
proof -
  have i: "fuzzyMatchScore '''' [0] = PosInf"
    by (simp add: fuzzyMatchScore_def numDivNat_def)
  note spec = fuzzyMatchScore_spec[of "''getText''" "[3, 4, 5, 6]"]
  have v: "fuzzyMatchScore ''getText'' [3, 4, 5, 6] = Num (4 / 10 + 4 / 11 + 4 / 12 + 4 / 13)"
    using spec[THEN conjunct2, THEN conjunct1] by simp
  have p: "numLess (Num 0) (fuzzyMatchScore ''getText'' [3, 4, 5, 6])"
    using spec[THEN conjunct2, THEN conjunct2, THEN conjunct2] by simp
  from v p i show ?thesis by simp
qed

section \<open>Indices returned by the matching algorithms\<close>

lemma length_toLowerCase: "length (toLowerCase s) = length s"
  by (simp add: toLowerCase_def)

lemma substring_eq_bound:
  assumes "substring s a (a + length t) = t" and "a \<le> length s"
  shows "a + length t \<le> length s"
proof -
  have "length (substring s a (a + length t)) = min (length t) (length s - a)"
    by (simp add: substring_def)
  with assms(1) have "length t \<le> length s - a" by simp
  with assms(2) show ?thesis by arith
qed

text \<open>Letter-token match: indices are below the length and strictly increasing.\<close>

lemma letterTokensLoop_range:
  assumes "\<forall>m\<in>set ms. m < length s"
  shows "\<forall>m\<in>set (letterTokensLoop q s startPos queue cursor ms). m < length s"
  using assms
proof (induction q s startPos queue cursor ms rule: letterTokensLoop.induct)
  case (1 q s startPos queue cursor ms)
  show ?case
  proof (cases queue)
    case Nil
    then show ?thesis using "1.prems" by (subst letterTokensLoop.simps) simp
  next
    case (Cons letter rest)
    show ?thesis
    proof (cases "cursor \<ge> length s")
      case True
      show ?thesis
      proof (cases "nextTokenIdx s startPos < length s")
        case r: True
        have "\<forall>m\<in>set (letterTokensLoop q s (nextTokenIdx s startPos) (normalizeToken q)
                  (nextTokenIdx s startPos) []). m < length s"
          using "1.IH"(1)[OF Cons True refl r] by simp
        then show ?thesis using Cons True r by (subst letterTokensLoop.simps) (simp add: Let_def)
      next
        case False
        then show ?thesis using Cons True by (subst letterTokensLoop.simps) simp
      qed
    next
      case inside: False
      show ?thesis
      proof (cases "[letter] = toLowerCase [s ! cursor]")
        case True
        have "\<forall>m\<in>set (ms @ [cursor]). m < length s" using "1.prems" inside by simp
        from "1.IH"(2)[OF Cons inside True this]
        show ?thesis using Cons inside True by (subst letterTokensLoop.simps) simp
      next
        case False
        from "1.IH"(3)[OF Cons inside False "1.prems"]
        show ?thesis using Cons inside False by (subst letterTokensLoop.simps) simp
      qed
    qed
  qed
qed

lemma letterTokensLoop_increasing:
  assumes "sorted_wrt (<) ms" and "\<forall>m\<in>set ms. m < cursor"
  shows "sorted_wrt (<) (letterTokensLoop q s startPos queue cursor ms)"
  using assms
proof (induction q s startPos queue cursor ms rule: letterTokensLoop.induct)
  case (1 q s startPos queue cursor ms)
  show ?case
  proof (cases queue)
    case Nil
    then show ?thesis using "1.prems" by (subst letterTokensLoop.simps) simp
  next
    case (Cons letter rest)
    show ?thesis
    proof (cases "cursor \<ge> length s")
      case True
      show ?thesis
      proof (cases "nextTokenIdx s startPos < length s")
        case r: True
        have "sorted_wrt (<) (letterTokensLoop q s (nextTokenIdx s startPos) (normalizeToken q)
                  (nextTokenIdx s startPos) [])"
          using "1.IH"(1)[OF Cons True refl r] by simp
        then show ?thesis using Cons True r by (subst letterTokensLoop.simps) (simp add: Let_def)
      next
        case False
        then show ?thesis using Cons True by (subst letterTokensLoop.simps) simp
      qed
    next
      case inside: False
      show ?thesis
      proof (cases "[letter] = toLowerCase [s ! cursor]")
        case True
        have a: "sorted_wrt (<) (ms @ [cursor])"
          using "1.prems" by (simp add: sorted_wrt_append)
        have b: "\<forall>m\<in>set (ms @ [cursor]). m < cursor + 1" using "1.prems"(2) by auto
        from "1.IH"(2)[OF Cons inside True a b]
        show ?thesis using Cons inside True by (subst letterTokensLoop.simps) simp
      next
        case False
        have "cursor < nextTokenIdx s cursor" using inside by (simp add: nextTokenIdx_progress)
        then have b: "\<forall>m\<in>set ms. m < nextTokenIdx s cursor" using "1.prems"(2) by auto
        from "1.IH"(3)[OF Cons inside False "1.prems"(1) b]
        show ?thesis using Cons inside False by (subst letterTokensLoop.simps) simp
      qed
    qed
  qed
qed

lemma matchLetterTokens_range: "\<forall>m\<in>set (matchLetterTokens q s startPos). m < length s"
  unfolding matchLetterTokens_def by (rule letterTokensLoop_range) simp

lemma matchLetterTokens_increasing: "sorted_wrt (<) (matchLetterTokens q s startPos)"
  unfolding matchLetterTokens_def by (rule letterTokensLoop_increasing) simp_all

text \<open>Strict token match: indices are below the length.\<close>

lemma tokensStrictLoop_range:
  assumes "\<forall>m\<in>set ms. m < length s"
  shows "\<forall>m\<in>set (tokensStrictLoop q s startPos queue cursor ms). m < length s"
  using assms
proof (induction q s startPos queue cursor ms rule: tokensStrictLoop.induct)
  case (1 q s startPos queue cursor ms)
  show ?case
  proof (cases queue)
    case Nil
    then show ?thesis using "1.prems" by (subst tokensStrictLoop.simps) simp
  next
    case (Cons token rest)
    show ?thesis
    proof (cases "cursor \<ge> length s")
      case True
      then show ?thesis
        using Cons matchLetterTokens_range[of q s "nextTokenIdx s startPos"]
        by (subst tokensStrictLoop.simps) (simp add: Let_def)
    next
      case inside: False
      let ?cursorEnd = "cursor + length token"
      show ?thesis
      proof (cases "substring (toLowerCase s) cursor ?cursorEnd = token")
        case True
        have "?cursorEnd \<le> length (toLowerCase s)"
          using True inside by (intro substring_eq_bound) (simp_all add: length_toLowerCase)
        then have "\<forall>m\<in>set (ms @ [cursor..<?cursorEnd]). m < length s"
          using "1.prems" by (auto simp: length_toLowerCase)
        from "1.IH"(1)[OF Cons inside refl refl True this]
        show ?thesis using Cons inside True by (subst tokensStrictLoop.simps) (simp add: Let_def)
      next
        case False
        from "1.IH"(2)[OF Cons inside refl refl False "1.prems"]
        show ?thesis using Cons inside False by (subst tokensStrictLoop.simps) (simp add: Let_def)
      qed
    qed
  qed
qed

lemma matchTokensStrict_range: "\<forall>m\<in>set (matchTokensStrict q s startPos). m < length s"
  unfolding matchTokensStrict_def by (rule tokensStrictLoop_range) simp

text \<open>Lenient token match: indices are below the length.\<close>

lemma tokensLenientLoop_range:
  assumes "\<forall>m\<in>set ms. m < length s"
  shows "\<forall>m\<in>set (tokensLenientLoop toks s cursor ms). m < length s"
  using assms
proof (induction toks s cursor ms rule: tokensLenientLoop.induct)
  case (1 toks s cursor ms)
  show ?case
  proof (cases "cursor < length s")
    case False
    then show ?thesis using "1.prems" by (subst tokensLenientLoop.simps) simp
  next
    case inside: True
    let ?P = "\<lambda>token. substring (toLowerCase s) cursor (cursor + length token) = token"
    show ?thesis
    proof (cases "find ?P toks")
      case None
      from "1.IH"(1)[OF inside None "1.prems"]
      show ?thesis using inside None by (subst tokensLenientLoop.simps) simp
    next
      case (Some token)
      then have eq: "?P token" by (auto simp: find_Some_iff)
      have "cursor + length token \<le> length (toLowerCase s)"
        using eq inside by (intro substring_eq_bound) (simp_all add: length_toLowerCase)
      then have "\<forall>m\<in>set (ms @ [cursor..<cursor + length token]). m < length s"
        using "1.prems" by (auto simp: length_toLowerCase)
      from "1.IH"(2)[OF inside Some refl this]
      show ?thesis using inside Some by (subst tokensLenientLoop.simps) (simp add: Let_def)
    qed
  qed
qed

lemma matchTokensLenient_range: "\<forall>m\<in>set (matchTokensLenient q s). m < length s"
  unfolding matchTokensLenient_def by (rule tokensLenientLoop_range) simp

text \<open>Wildcard match: indices are below the length and strictly increasing.\<close>

lemma find_Some_member:
  assumes "find P xs = Some x"
  shows "P x \<and> x \<in> set xs"
  using assms by (induction xs) (auto split: if_splits)

lemma indexOf_Some:
  assumes "indexOf s t pos = Some k"
  shows "k + length t \<le> length s \<and> min pos (length s) \<le> k"
  using find_Some_member[OF assms[unfolded indexOf_def]] by auto

lemma wildcardLoop_range:
  assumes "\<forall>m\<in>set ms. m < length sn"
  shows "\<forall>m\<in>set (wildcardLoop query sn fromIdx ms). m < length sn"
  using assms
proof (induction query arbitrary: fromIdx ms)
  case Nil
  then show ?case by simp
next
  case (Cons ch query)
  show ?case
  proof (cases "indexOf sn (toLowerCase [ch]) fromIdx")
    case None
    then show ?thesis by simp
  next
    case (Some idx)
    from indexOf_Some[OF Some] have "idx < length sn" by (simp add: length_toLowerCase)
    with Cons.prems have "\<forall>m\<in>set (ms @ [idx]). m < length sn" by simp
    from Cons.IH[OF this] show ?thesis using Some by simp
  qed
qed

lemma wildcardLoop_increasing:
  assumes "sorted_wrt (<) ms" and "\<forall>m\<in>set ms. m < fromIdx"
  shows "sorted_wrt (<) (wildcardLoop query sn fromIdx ms)"
  using assms
proof (induction query arbitrary: fromIdx ms)
  case Nil
  then show ?case by simp
next
  case (Cons ch query)
  show ?case
  proof (cases "indexOf sn (toLowerCase [ch]) fromIdx")
    case None
    then show ?thesis by simp
  next
    case (Some idx)
    from indexOf_Some[OF Some] have "idx < length sn" and "min fromIdx (length sn) \<le> idx"
      by (simp_all add: length_toLowerCase)
    then have ge: "fromIdx \<le> idx" by arith
    have a: "sorted_wrt (<) (ms @ [idx])"
      using Cons.prems ge by (auto simp: sorted_wrt_append)
    have b: "\<forall>m\<in>set (ms @ [idx]). m < idx + 1" using Cons.prems(2) ge by auto
    from Cons.IH[OF a b] show ?thesis using Some by simp
  qed
qed

lemma matchWildcard_range: "\<forall>m\<in>set (matchWildcard q s). m < length s"
proof -
  have "\<forall>m\<in>set (matchWildcard q s). m < length (toLowerCase s)"
    unfolding matchWildcard_def by (rule wildcardLoop_range) simp
  then show ?thesis by (simp add: length_toLowerCase)
qed

lemma matchWildcard_increasing: "sorted_wrt (<) (matchWildcard q s)"
  unfolding matchWildcard_def by (rule wildcardLoop_increasing) simp_all

section \<open>Runs of consecutive indices\<close>

lemma runs_Nil: "runs [] = []"
  by (simp add: runs_def)

lemma runs_Cons: "runs ((c, e) # bs) = [c..<e] @ runs bs"
  by (simp add: runs_def)

lemma runsWithin_Nil: "runsWithin from n []"
  by (simp add: runsWithin_def)

lemma runsWithin_Cons:
  assumes "runsWithin from' n bs" and "c < from'" and "from \<le> c" and "c < e" and "e \<le> n"
  shows "runsWithin from n ((c, e) # bs)"
  using assms by (auto simp: runsWithin_def list_all_iff)

lemma runsWithin_weaken:
  assumes "runsWithin from' n bs" and "from \<le> from'"
  shows "runsWithin from n bs"
  using assms by (auto simp: runsWithin_def list_all_iff)

text \<open>A strictly increasing list of indices below \<open>n\<close> is made of runs of length one.\<close>

lemma increasing_runs:
  assumes "sorted_wrt (<) ms" and "\<forall>m\<in>set ms. m < n"
  shows "ms = runs (map (\<lambda>m. (m, Suc m)) ms) \<and> runsWithin 0 n (map (\<lambda>m. (m, Suc m)) ms)"
proof -
  have "runs (map (\<lambda>m. (m, Suc m)) ms) = ms"
    by (induction ms) (simp_all add: runs_Nil runs_Cons)
  moreover have "map fst (map (\<lambda>m. (m, Suc m)) ms) = ms"
    by (simp add: comp_def)
  ultimately show ?thesis
    using assms by (auto simp: runsWithin_def list_all_iff)
qed

lemma tokensLenientLoop_runs:
  assumes "\<forall>t\<in>set toks. t \<noteq> []"
  shows "\<exists>bs. tokensLenientLoop toks s cursor ms = ms @ runs bs \<and> runsWithin cursor (length s) bs"
  using assms
proof (induction toks s cursor ms rule: tokensLenientLoop.induct)
  case (1 toks s cursor ms)
  show ?case
  proof (cases "cursor < length s")
    case False
    then have "tokensLenientLoop toks s cursor ms = ms @ runs []"
      by (subst tokensLenientLoop.simps) (simp add: runs_Nil)
    then show ?thesis using runsWithin_Nil by blast
  next
    case inside: True
    let ?P = "\<lambda>token. substring (toLowerCase s) cursor (cursor + length token) = token"
    have fwd: "cursor < nextTokenIdx s cursor" using inside by (rule nextTokenIdx_progress)
    show ?thesis
    proof (cases "find ?P toks")
      case None
      from "1.IH"(1)[OF inside None "1.prems"]
      obtain bs where r: "tokensLenientLoop toks s (nextTokenIdx s cursor) ms = ms @ runs bs"
        and w: "runsWithin (nextTokenIdx s cursor) (length s) bs" by blast
      have "tokensLenientLoop toks s cursor ms = ms @ runs bs"
        using inside None r by (subst tokensLenientLoop.simps) simp
      moreover have "runsWithin cursor (length s) bs"
        using w fwd by (intro runsWithin_weaken[OF w]) simp
      ultimately show ?thesis by blast
    next
      case (Some token)
      let ?cursorEnd = "cursor + length token"
      let ?cursor' = "min (nextTokenIdx s ?cursorEnd) (nextTokenIdx s cursor)"
      from find_Some_member[OF Some] have eq: "?P token" and mem: "token \<in> set toks" by simp_all
      have ne: "cursor < ?cursorEnd" using mem "1.prems" by simp
      have bound: "?cursorEnd \<le> length s"
        using substring_eq_bound[of "toLowerCase s" cursor token] eq inside
        by (simp add: length_toLowerCase)
      have adv: "cursor < ?cursor'"
        using fwd nextTokenIdx_after[of cursor s ?cursorEnd] inside by simp
      from "1.IH"(2)[OF inside Some refl "1.prems"]
      obtain bs where r: "tokensLenientLoop toks s ?cursor' (ms @ [cursor..<?cursorEnd])
            = (ms @ [cursor..<?cursorEnd]) @ runs bs"
        and w: "runsWithin ?cursor' (length s) bs" by blast
      have "tokensLenientLoop toks s cursor ms = ms @ runs ((cursor, ?cursorEnd) # bs)"
        using inside Some r by (subst tokensLenientLoop.simps) (simp add: Let_def runs_Cons)
      moreover have "runsWithin cursor (length s) ((cursor, ?cursorEnd) # bs)"
        using w adv ne bound by (intro runsWithin_Cons[OF w]) simp_all
      ultimately show ?thesis by blast
    qed
  qed
qed

lemma tokensStrictLoop_runs:
  assumes "\<forall>t\<in>set queue. t \<noteq> []"
  shows "(\<exists>bs. tokensStrictLoop q s startPos queue cursor ms = ms @ runs bs
            \<and> runsWithin cursor (length s) bs)
     \<or> tokensStrictLoop q s startPos queue cursor ms = matchLetterTokens q s (nextTokenIdx s startPos)
     \<or> tokensStrictLoop q s startPos queue cursor ms = []"
  using assms
proof (induction q s startPos queue cursor ms rule: tokensStrictLoop.induct)
  case (1 q s startPos queue cursor ms)
  show ?case
  proof (cases queue)
    case Nil
    then have "tokensStrictLoop q s startPos queue cursor ms = ms @ runs []"
      by (subst tokensStrictLoop.simps) (simp add: runs_Nil)
    then show ?thesis using runsWithin_Nil by blast
  next
    case (Cons token rest)
    show ?thesis
    proof (cases "cursor \<ge> length s")
      case True
      then show ?thesis using Cons by (subst (1 2 3) tokensStrictLoop.simps) (simp add: Let_def)
    next
      case inside: False
      let ?cursorEnd = "cursor + length token"
      let ?cursor' = "min (nextTokenIdx s ?cursorEnd) (nextTokenIdx s cursor)"
      have fwd: "cursor < nextTokenIdx s cursor" using inside by (simp add: nextTokenIdx_progress)
      show ?thesis
      proof (cases "substring (toLowerCase s) cursor ?cursorEnd = token")
        case False
        have step: "tokensStrictLoop q s startPos queue cursor ms
            = tokensStrictLoop q s startPos queue (nextTokenIdx s cursor) ms"
          using Cons inside False by (subst tokensStrictLoop.simps) (simp add: Let_def)
        from "1.IH"(2)[OF Cons inside refl refl False "1.prems"]
        consider bs where "tokensStrictLoop q s startPos queue (nextTokenIdx s cursor) ms
              = ms @ runs bs" and "runsWithin (nextTokenIdx s cursor) (length s) bs"
          | "tokensStrictLoop q s startPos queue (nextTokenIdx s cursor) ms
              = matchLetterTokens q s (nextTokenIdx s startPos)"
          | "tokensStrictLoop q s startPos queue (nextTokenIdx s cursor) ms = []"
          by blast
        then show ?thesis
        proof cases
          case (1 bs)
          have "runsWithin cursor (length s) bs"
            using fwd by (intro runsWithin_weaken[OF 1(2)]) simp
          with 1(1) show ?thesis unfolding step by blast
        next
          case 2
          then show ?thesis unfolding step by simp
        next
          case 3
          then show ?thesis unfolding step by simp
        qed
      next
        case True
        have ne: "cursor < ?cursorEnd" using Cons "1.prems" by simp
        have bound: "?cursorEnd \<le> length s"
          using substring_eq_bound[of "toLowerCase s" cursor token] True inside
          by (simp add: length_toLowerCase)
        have adv: "cursor < ?cursor'"
          using fwd nextTokenIdx_after[of cursor s ?cursorEnd] inside by simp
        have step: "tokensStrictLoop q s startPos queue cursor ms
            = tokensStrictLoop q s startPos rest ?cursor' (ms @ [cursor..<?cursorEnd])"
          using Cons inside True by (subst tokensStrictLoop.simps) (simp add: Let_def)
        have rest: "\<forall>t\<in>set rest. t \<noteq> []" using Cons "1.prems" by simp
        from "1.IH"(1)[OF Cons inside refl refl True rest]
        consider bs where "tokensStrictLoop q s startPos rest ?cursor' (ms @ [cursor..<?cursorEnd])
              = (ms @ [cursor..<?cursorEnd]) @ runs bs" and "runsWithin ?cursor' (length s) bs"
          | "tokensStrictLoop q s startPos rest ?cursor' (ms @ [cursor..<?cursorEnd])
              = matchLetterTokens q s (nextTokenIdx s startPos)"
          | "tokensStrictLoop q s startPos rest ?cursor' (ms @ [cursor..<?cursorEnd]) = []"
          by blast
        then show ?thesis
        proof cases
          case (1 bs)
          have "tokensStrictLoop q s startPos queue cursor ms = ms @ runs ((cursor, ?cursorEnd) # bs)"
            unfolding step using 1(1) by (simp add: runs_Cons)
          moreover have "runsWithin cursor (length s) ((cursor, ?cursorEnd) # bs)"
            using adv ne bound by (intro runsWithin_Cons[OF 1(2)]) simp_all
          ultimately show ?thesis by blast
        next
          case 2
          then show ?thesis unfolding step by simp
        next
          case 3
          then show ?thesis unfolding step by simp
        qed
      qed
    qed
  qed
qed

lemma tokenize_nonempty: "\<forall>t\<in>set (tokenize q). t \<noteq> []"
  using tokenize_tokens[of q] by (simp add: list_all_iff isToken_def)

lemma matchLetterTokens_runs:
  "\<exists>bs. matchLetterTokens q s startPos = runs bs \<and> runsWithin 0 (length s) bs"
  using increasing_runs[OF matchLetterTokens_increasing[of q s startPos], of "length s"]
    matchLetterTokens_range[of q s startPos]
  by blast

lemma matchWildcard_runs: "\<exists>bs. matchWildcard q s = runs bs \<and> runsWithin 0 (length s) bs"
  using increasing_runs[OF matchWildcard_increasing[of q s], of "length s"]
    matchWildcard_range[of q s]
  by blast

lemma matchTokensLenient_runs: "\<exists>bs. matchTokensLenient q s = runs bs \<and> runsWithin 0 (length s) bs"
  using tokensLenientLoop_runs[OF tokenize_nonempty, where s = s and cursor = 0 and ms = "[]"]
  by (simp add: matchTokensLenient_def)

lemma matchTokensStrict_runs:
  "\<exists>bs. matchTokensStrict q s startPos = runs bs \<and> runsWithin 0 (length s) bs"
proof -
  from tokensStrictLoop_runs[OF tokenize_nonempty, where q = q and s = s and startPos = startPos
      and cursor = startPos and ms = "[]"]
  consider bs where "matchTokensStrict q s startPos = runs bs" and "runsWithin startPos (length s) bs"
    | "matchTokensStrict q s startPos = matchLetterTokens q s (nextTokenIdx s startPos)"
    | "matchTokensStrict q s startPos = []"
    unfolding matchTokensStrict_def by auto
  then show ?thesis
  proof cases
    case (1 bs)
    from runsWithin_weaken[OF 1(2), of 0] 1(1) show ?thesis by auto
  next
    case 2
    then show ?thesis using matchLetterTokens_runs[of q s "nextTokenIdx s startPos"] by simp
  next
    case 3
    then show ?thesis using runs_Nil runsWithin_Nil by metis
  qed
qed

section \<open>Sorting and the order of the algorithms\<close>

lemma mset_insertBy: "mset (insertBy cmp x ys) = add_mset x (mset ys)"
  by (induction ys) simp_all

lemma mset_sort_loop:
  "mset (foldl (\<lambda>sorted x. insertBy cmp x sorted) acc xs) = mset acc + mset xs"
  by (induction xs arbitrary: acc) (simp_all add: mset_insertBy)

lemma mset_sortBy: "mset (sortBy cmp xs) = mset xs"
  by (simp add: sortBy_def mset_sort_loop)

lemma set_sortBy: "set (sortBy cmp xs) = set xs"
  using mset_sortBy[of cmp xs] by (metis set_mset_mset)





lemma set_sortedAlgs: "set (sortedAlgs opts) = set algorithms"
  by (simp add: sortedAlgs_def set_sortBy)


lemma sortedAlgs_default: "sortedAlgs noOptions = algorithms"
  by (simp add: sortedAlgs_def sortBy_def algorithms_def noOptions_def)

lemma tryAlgorithms_first:
  "tryAlgorithms algs q s opts =
     (case firstMatching algs q s opts of None \<Rightarrow> noMatch s | Some a \<Rightarrow> resultOf a q s opts)"
  by (induction algs) (simp_all add: firstMatching_def noMatch_def resultOf_def Let_def)

lemma tryAlgorithms_skip:
  "tryAlgorithms algs q s opts = tryAlgorithms (filter (\<lambda>a. bias a opts \<noteq> 0) algs) q s opts"
  by (induction algs) (simp_all add: Let_def)

section \<open>The match arbitrator\<close>

lemma algorithms_range:
  assumes "a \<in> set algorithms"
  shows "\<forall>m\<in>set (matcher a q s). m < length s"
  using assms matchTokensStrict_range[of q s 0] matchLetterTokens_range[of q s 0]
    matchTokensLenient_range[of q s] matchWildcard_range[of q s]
  by (auto simp: algorithms_def)

lemma firstMatching_Some:
  assumes "firstMatching algs q s opts = Some a"
  shows "a \<in> set algs \<and> bias a opts \<noteq> 0 \<and> matcher a q s \<noteq> []"
  using find_Some_member[OF assms[unfolded firstMatching_def]] by simp


lemma fuzzyMatch_first:
  "fuzzyMatch q s opts =
     (case firstMatching (sortedAlgs opts) q s opts of
        None \<Rightarrow> noMatch s | Some a \<Rightarrow> resultOf a q s opts)"
  by (simp add: fuzzyMatch_def tryAlgorithms_first)

lemma fuzzyMatch_matches_cases:
  "matches (fuzzyMatch q s opts) = [] \<or> (\<exists>a\<in>set algorithms. matches (fuzzyMatch q s opts) = matcher a q s)"
proof (cases "firstMatching (sortedAlgs opts) q s opts")
  case None
  then show ?thesis by (simp add: fuzzyMatch_first noMatch_def)
next
  case (Some a)
  from firstMatching_Some[OF Some] have "a \<in> set algorithms" by (simp add: set_sortedAlgs)
  then show ?thesis using Some by (auto simp: fuzzyMatch_first resultOf_def)
qed

lemma fuzzyMatch_range: "\<forall>m\<in>set (matches (fuzzyMatch q s opts)). m < length s"
  using fuzzyMatch_matches_cases[of q s opts] algorithms_range[of _ q s] by auto

lemma algorithms_runs:
  assumes "a \<in> set algorithms"
  shows "\<exists>bs. matcher a q s = runs bs \<and> runsWithin 0 (length s) bs"
  using assms matchTokensStrict_runs[of q s 0] matchLetterTokens_runs[of q s 0]
    matchTokensLenient_runs[of q s] matchWildcard_runs[of q s]
  by (auto simp: algorithms_def)

lemma fuzzyMatch_runs:
  "\<exists>bs. matches (fuzzyMatch q s opts) = runs bs \<and> runsWithin 0 (length s) bs"
  using fuzzyMatch_matches_cases[of q s opts]
proof
  assume "matches (fuzzyMatch q s opts) = []"
  then show ?thesis using runs_Nil runsWithin_Nil by metis
next
  assume "\<exists>a\<in>set algorithms. matches (fuzzyMatch q s opts) = matcher a q s"
  then show ?thesis using algorithms_runs by metis
qed

text \<open>The raw score of a non-empty list of indices below the length is a positive rational.\<close>

lemma fuzzyMatchScore_finite:
  assumes "ms \<noteq> []" and "\<forall>m\<in>set ms. m < length s"
  shows "\<exists>x. 0 < x \<and> fuzzyMatchScore s ms = Num x"
proof -
  from assms obtain m where "m \<in> set ms" and "m < length s" by (cases ms) auto
  then have l: "0 < length s" by arith
  have "fuzzyMatchScore s ms = Num (\<Sum>m\<leftarrow>ms. of_nat (length ms) / of_nat (length s + m))"
    using sumOfTerms_rat[OF l, of "length ms" ms] by (simp add: fuzzyMatchScore_sum)
  moreover have "numLess (Num 0) (fuzzyMatchScore s ms)"
    using assms(1) by (rule fuzzyMatchScore_pos)
  ultimately show ?thesis by auto
qed

lemma fuzzyMatch_decided:
  assumes "firstMatching (sortedAlgs opts) q s opts = Some a"
  shows "\<exists>x. 0 < x \<and> fuzzyMatchScore s (matcher a q s) = Num x
     \<and> score (fuzzyMatch q s opts) = Num (x * bias a opts)
     \<and> matches (fuzzyMatch q s opts) = matcher a q s
     \<and> matcher a q s \<noteq> [] \<and> bias a opts \<noteq> 0 \<and> a \<in> set algorithms"
proof -
  from firstMatching_Some[OF assms]
  have a: "a \<in> set algorithms" and b: "bias a opts \<noteq> 0" and ne: "matcher a q s \<noteq> []"
    by (simp_all add: set_sortedAlgs)
  from fuzzyMatchScore_finite[OF ne algorithms_range[OF a]]
  obtain x where x: "0 < x" and raw: "fuzzyMatchScore s (matcher a q s) = Num x" by blast
  have "score (fuzzyMatch q s opts) = Num (x * bias a opts)"
    using assms raw by (simp add: fuzzyMatch_first resultOf_def)
  moreover have "matches (fuzzyMatch q s opts) = matcher a q s"
    using assms by (simp add: fuzzyMatch_first resultOf_def)
  ultimately show ?thesis using a b ne x raw by blast
qed








text \<open>
  C6. An algorithm whose bias is 0 is skipped: \<open>fuzzyMatch\<close> is the loop over the algorithms
  with a bias other than 0, and the algorithm that fixes the result has a bias other than 0.
  When the strict, letter-token and lenient algorithms return no index for a query and a
  source, \<open>fuzzyMatch\<close> with \<^verbatim>\<open>biasWildcard: 0\<close> returns score 0 and no index, whatever the
  wildcard algorithm returns.
\<close>

theorem zero_bias_skipped:
  "fuzzyMatch q s opts = tryAlgorithms (filter (\<lambda>a. bias a opts \<noteq> 0) (sortedAlgs opts)) q s opts
   \<and> (firstMatching (sortedAlgs opts) q s opts = Some a \<longrightarrow> bias a opts \<noteq> 0)
   \<and> (matchTokensStrict q s 0 = [] \<and> matchLetterTokens q s 0 = [] \<and> matchTokensLenient q s = []
        \<longrightarrow> fuzzyMatch q s (opts\<lparr>biasWildcard := Some 0\<rparr>)
            = \<lparr>score = Num 0, matches = [], highlight = s\<rparr>)"
proof -
  have skip: "fuzzyMatch q s opts
      = tryAlgorithms (filter (\<lambda>a. bias a opts \<noteq> 0) (sortedAlgs opts)) q s opts"
    unfolding fuzzyMatch_def by (rule tryAlgorithms_skip)
  have sel: "firstMatching (sortedAlgs opts) q s opts = Some a \<longrightarrow> bias a opts \<noteq> 0"
    using firstMatching_Some by blast
  have wild: "fuzzyMatch q s (opts\<lparr>biasWildcard := Some 0\<rparr>)
            = \<lparr>score = Num 0, matches = [], highlight = s\<rparr>"
    if none: "matchTokensStrict q s 0 = [] \<and> matchLetterTokens q s 0 = []
        \<and> matchTokensLenient q s = []"
  proof -
    let ?opts = "opts\<lparr>biasWildcard := Some 0\<rparr>"
    have "\<forall>b\<in>set algorithms. \<not> (bias b ?opts \<noteq> 0 \<and> matcher b q s \<noteq> [])"
      using none by (simp add: algorithms_def)
    then have "firstMatching (sortedAlgs ?opts) q s ?opts = None"
      unfolding firstMatching_def find_None_iff set_sortedAlgs by blast
    then show ?thesis by (simp add: fuzzyMatch_first noMatch_def)
  qed
  from skip sel wild show ?thesis by blast
qed

theorem zero_bias_skipped_witness:
  "matchTokensStrict ''text'' ''batchExtract'' 0 = []
   \<and> matchLetterTokens ''text'' ''batchExtract'' 0 = []
   \<and> matchTokensLenient ''text'' ''batchExtract'' = []
   \<and> matchWildcard ''text'' ''batchExtract'' = [2, 5, 6, 7]
   \<and> matches (fuzzyMatch ''text'' ''batchExtract'' noOptions) = [2, 5, 6, 7]
   \<and> firstMatching (sortedAlgs noOptions) ''text'' ''batchExtract'' noOptions = Some (algorithms ! 3)
   \<and> bias (algorithms ! 3) noOptions \<noteq> 0
   \<and> fuzzyMatch ''text'' ''batchExtract'' (noOptions\<lparr>biasWildcard := Some 0\<rparr>)
       = \<lparr>score = Num 0, matches = [], highlight = ''batchExtract''\<rparr>"
proof -
  have a: "matchTokensStrict ''text'' ''batchExtract'' 0 = []" by code_simp
  have b: "matchLetterTokens ''text'' ''batchExtract'' 0 = []" by code_simp
  have c: "matchTokensLenient ''text'' ''batchExtract'' = []" by code_simp
  have d: "matchWildcard ''text'' ''batchExtract'' = [2, 5, 6, 7]" by code_simp
  have e: "matches (fuzzyMatch ''text'' ''batchExtract'' noOptions) = [2, 5, 6, 7]" by code_simp
  have f: "firstMatching (sortedAlgs noOptions) ''text'' ''batchExtract'' noOptions
      = Some (algorithms ! 3)"
    unfolding sortedAlgs_default
    by (simp add: firstMatching_def algorithms_def noOptions_def a b c d)
  note inst = zero_bias_skipped[of "''text''" "''batchExtract''" noOptions "algorithms ! 3"]
  from inst f have g: "bias (algorithms ! 3) noOptions \<noteq> 0" by blast
  from inst a b c have "fuzzyMatch ''text'' ''batchExtract'' (noOptions\<lparr>biasWildcard := Some 0\<rparr>)
       = \<lparr>score = Num 0, matches = [], highlight = ''batchExtract''\<rparr>"
    by blast
  with a b c d e f g show ?thesis by blast
qed


section \<open>The search aggregator\<close>

lemma searchLoop_eq:
  "searchLoop q entries opts results =
     results @ map (candidateResult q opts) (filter (isMatch q opts) entries)"
  by (induction entries arbitrary: results)
     (simp_all add: Let_def isMatch_def candidateResult_def)

lemma fuzzySearch_eq:
  "fuzzySearch q srcs opts =
     sortBy compareResults (map (candidateResult q opts) (filter (isMatch q opts) (enumerate 0 srcs)))"
  by (simp add: fuzzySearch_def searchLoop_eq)



lemma mset_fuzzySearch:
  "mset (fuzzySearch q srcs opts) =
     mset (map (candidateResult q opts) (filter (isMatch q opts) (enumerate 0 srcs)))"
  unfolding fuzzySearch_eq by (rule mset_sortBy)

lemma fuzzySearch_member:
  assumes "r \<in> set (fuzzySearch q srcs opts)"
  shows "index r < length srcs \<and> source r = srcs ! index r
     \<and> numLess (Num 0) (score r)
     \<and> score r = score (fuzzyMatch q (source r) opts)
     \<and> matches r = matches (fuzzyMatch q (source r) opts)
     \<and> highlight r = highlight (fuzzyMatch q (source r) opts)"
proof -
  from assms have "r \<in># mset (fuzzySearch q srcs opts)" by simp
  then have "r \<in> set (map (candidateResult q opts) (filter (isMatch q opts) (enumerate 0 srcs)))"
    unfolding mset_fuzzySearch by simp
  then obtain e where e: "e \<in> set (enumerate 0 srcs)" and m: "isMatch q opts e"
    and r: "r = candidateResult q opts e" by auto
  obtain i src where p: "e = (i, src)" by (cases e) auto
  from e have "fst e < length srcs \<and> snd e = srcs ! fst e"
    by (simp add: p in_set_enumerate_eq)
  then show ?thesis using m by (simp add: r candidateResult_def isMatch_def)
qed



text \<open>
  C1 (amended). Every index returned by \<open>fuzzyMatch\<close>, and carried by a result of
  \<open>fuzzySearch\<close>, lies below the length of the source. The list of indices is made of
  non-empty runs of consecutive offsets within the source, each run starting strictly after the
  start of the run before it. The indices are strictly increasing when the letter-token or the
  wildcard algorithm produced them.
\<close>

theorem match_indices:
  "(\<forall>m\<in>set (matches (fuzzyMatch q s opts)). m < length s)
   \<and> (\<forall>r\<in>set (fuzzySearch q srcs opts). \<forall>m\<in>set (matches r). m < length (source r))
   \<and> (\<exists>bs. matches (fuzzyMatch q s opts) = runs bs \<and> runsWithin 0 (length s) bs)
   \<and> sorted_wrt (<) (matchLetterTokens q s startPos)
   \<and> sorted_wrt (<) (matchWildcard q s)
   \<and> (\<forall>a. firstMatching (sortedAlgs opts) q s opts = Some a
          \<and> (a = algorithms ! 1 \<or> a = algorithms ! 3)
        \<longrightarrow> sorted_wrt (<) (matches (fuzzyMatch q s opts)))"
proof -
  have search: "\<forall>r\<in>set (fuzzySearch q srcs opts). \<forall>m\<in>set (matches r). m < length (source r)"
  proof
    fix r assume "r \<in> set (fuzzySearch q srcs opts)"
    from fuzzySearch_member[OF this]
    have "matches r = matches (fuzzyMatch q (source r) opts)" by simp
    then show "\<forall>m\<in>set (matches r). m < length (source r)"
      using fuzzyMatch_range[of q "source r" opts] by simp
  qed
  have decided: "sorted_wrt (<) (matches (fuzzyMatch q s opts))"
    if "firstMatching (sortedAlgs opts) q s opts = Some a \<and> (a = algorithms ! 1 \<or> a = algorithms ! 3)"
    for a
  proof -
    from that fuzzyMatch_decided[of opts q s a]
    have "matches (fuzzyMatch q s opts) = matcher a q s" by blast
    moreover have "matcher a q s = matchLetterTokens q s 0 \<or> matcher a q s = matchWildcard q s"
      using that by (auto simp: algorithms_def)
    ultimately show ?thesis
      using matchLetterTokens_increasing[of q s 0] matchWildcard_increasing[of q s] by auto
  qed
  from fuzzyMatch_range[of q s opts] search fuzzyMatch_runs[of q s opts]
    matchLetterTokens_increasing[of q s startPos] matchWildcard_increasing[of q s] decided
  show ?thesis by blast
qed

theorem match_indices_witness:
  "matches (fuzzyMatch ''gt'' ''getText'' noOptions) = [0, 3]
   \<and> firstMatching (sortedAlgs noOptions) ''gt'' ''getText'' noOptions = Some (algorithms ! 1)
   \<and> sorted_wrt (<) (matches (fuzzyMatch ''gt'' ''getText'' noOptions))
   \<and> list_all (\<lambda>m. m < length ''getText'') (matches (fuzzyMatch ''gt'' ''getText'' noOptions))
   \<and> matches (fuzzyMatch ''gt'' ''getText'' noOptions) = runs [(0, 1), (3, 4)]
   \<and> runsWithin 0 (length ''getText'') [(0, 1), (3, 4)]
   \<and> map source (fuzzySearch ''gt'' [''getText''] noOptions) = [''getText'']"
proof -
  have strict: "matchTokensStrict ''gt'' ''getText'' 0 = []" by code_simp
  have letter: "matchLetterTokens ''gt'' ''getText'' 0 = [0, 3]" by code_simp
  have m: "matches (fuzzyMatch ''gt'' ''getText'' noOptions) = [0, 3]" by code_simp
  have f: "firstMatching (sortedAlgs noOptions) ''gt'' ''getText'' noOptions = Some (algorithms ! 1)"
    unfolding sortedAlgs_default
    by (simp add: firstMatching_def algorithms_def noOptions_def strict letter)
  have src: "map source (fuzzySearch ''gt'' [''getText''] noOptions) = [''getText'']"
    by code_simp
  note inst = match_indices[of "''gt''" "''getText''" noOptions "[''getText'']" 0]
  from inst f have "sorted_wrt (<) (matches (fuzzyMatch ''gt'' ''getText'' noOptions))" by blast
  moreover from inst
  have "list_all (\<lambda>m. m < length ''getText'') (matches (fuzzyMatch ''gt'' ''getText'' noOptions))"
    unfolding list_all_iff by blast
  moreover have "matches (fuzzyMatch ''gt'' ''getText'' noOptions) = runs [(0, 1), (3, 4)]"
    unfolding m by (simp add: runs_def)
  moreover have "runsWithin 0 (length ''getText'') [(0, 1), (3, 4)]"
    by (simp add: runsWithin_def)
  ultimately show ?thesis using m f src by blast
qed

text \<open>
  C1 as stated fails: for the query \<^verbatim>\<open>gettext text\<close> and the source \<^verbatim>\<open>getText\<close> the strict
  algorithm matches the first query token at offsets 0 to 6, moves the cursor to the end of the
  first source token, offset 3, and matches the second query token at offsets 3 to 6 again.
\<close>

theorem match_indices_not_increasing:
  "matches (fuzzyMatch ''gettext text'' ''getText'' noOptions) = [0, 1, 2, 3, 4, 5, 6, 3, 4, 5, 6]
   \<and> \<not> sorted_wrt (<) (matches (fuzzyMatch ''gettext text'' ''getText'' noOptions))"
proof -
  have m: "matches (fuzzyMatch ''gettext text'' ''getText'' noOptions)
      = [0, 1, 2, 3, 4, 5, 6, 3, 4, 5, 6]"
    by code_simp
  show ?thesis unfolding m by simp
qed

end
